theory Spec2Isabelle
  imports Main "HOL-Library.Word"
begin

section \<open>Process tracker (BuildXLSandbox.cpp, ProcessObject.hpp)\<close>

text \<open>
  The sandbox keeps a dictionary from process ids to pointers to \<open>ProcessObject\<close>s.
  A child's pid is mapped to the \<^emph>\<open>same\<close> object as its root, so objects live in an
  explicit store addressed by a reference (the pointer value), and the dictionary holds
  references. \<open>pid_t\<close> and \<open>pipid_t\<close> are only compared, never computed with, and are
  integers here; \<open>processTreeCount\<close> is a C \<open>int\<close> that is incremented and decremented
  atomically, a 32-bit word here (\<open>OSIncrementAtomic\<close> wraps).

  What the sandbox tells the outside world is kept as a list of events: every
  \<open>log_error\<close> and every \<open>AccessHandler::ReportProcessTreeCompleted\<close>. The
  \<open>log_debug\<close>/\<open>log_verbose\<close> diagnostics are not part of the state. The recursive
  lock taken by \<open>EnterMonitor\<close> serialises the operations; each operation is one step
  of the sequential model.
\<close>

type_synonym pid_t = int
type_synonym pipid_t = int
type_synonym procref = nat

text \<open>The fields of \<open>ProcessObject\<close> that the tracker reads and writes; \<open>pipId\<close> stands for
  \<open>fam_.GetPipId()->PipId\<close>. \<open>ProcessObject::init\<close> is not among the sources: the count
  an object has when it is created is the count the store holds for it, a parameter
  of every property below.\<close>

record ProcessObject =
  clientPid :: pid_t
  processId :: pid_t
  pipId :: pipid_t
  processTreeCount :: "32 word"

datatype event =
    TreeCompleted procref
  | ErrorNotFound pid_t
  | ErrorMismatch pipid_t pid_t pipid_t pid_t

datatype IOReturn = kIOReturnSuccess | kIOReturnError

record Sandbox =
  trackedProcesses :: "(pid_t \<times> procref) list"
  objects :: "procref \<Rightarrow> ProcessObject"
  reportQueues :: "(pid_t \<times> nat) list"
  events :: "event list"

subsection \<open>ProcessObject.hpp\<close>

definition getClientPid :: "Sandbox \<Rightarrow> procref \<Rightarrow> pid_t" where
  "getClientPid s p = clientPid (objects s p)"

definition getProcessId :: "Sandbox \<Rightarrow> procref \<Rightarrow> pid_t" where
  "getProcessId s p = processId (objects s p)"

definition getPipId :: "Sandbox \<Rightarrow> procref \<Rightarrow> pipid_t" where
  "getPipId s p = pipId (objects s p)"

definition getProcessTreeCount :: "Sandbox \<Rightarrow> procref \<Rightarrow> 32 word" where
  "getProcessTreeCount s p = processTreeCount (objects s p)"

text \<open>\<open>OSCompareAndSwap(0, 0, &processTreeCount_)\<close> succeeds exactly when the count is 0
  and then stores 0 again.\<close>

definition hasEmptyProcessTree :: "Sandbox \<Rightarrow> procref \<Rightarrow> bool" where
  "hasEmptyProcessTree s p = (processTreeCount (objects s p) = 0)"

definition incrementProcessTreeCount :: "procref \<Rightarrow> Sandbox \<Rightarrow> Sandbox" where
  "incrementProcessTreeCount p s =
     s\<lparr>objects := (objects s)(p := (objects s p)\<lparr>processTreeCount := processTreeCount (objects s p) + 1\<rparr>)\<rparr>"

definition decrementProcessTreeCount :: "procref \<Rightarrow> Sandbox \<Rightarrow> Sandbox" where
  "decrementProcessTreeCount p s =
     s\<lparr>objects := (objects s)(p := (objects s p)\<lparr>processTreeCount := processTreeCount (objects s p) - 1\<rparr>)\<rparr>"

subsection \<open>ConcurrentDictionary and ConcurrentMultiplexingQueue\<close>

text \<open>
  Modelled from the spec: \<open>ConcurrentDictionary\<close> (ConcurrentDictionary.hpp/.cpp are not
  among the sources). The spec describes it as "a dictionary from process id to Tracked
  Process entity ... one entry per id": \<open>getProcess\<close> looks a pid up, \<open>insert\<close> binds a
  key (replacing an older binding, as an \<open>OSDictionary\<close> does) and reports success,
  \<open>insertProcess\<close> inserts "under the process's own id", \<open>removeProcess\<close> removes the
  binding of a pid and reports whether there was one, \<open>forEach\<close> visits every entry.
  The dictionary is an association list so that \<open>forEach\<close> can enumerate it.
\<close>

definition getProcess :: "(pid_t \<times> procref) list \<Rightarrow> pid_t \<Rightarrow> procref option" where
  "getProcess d pid = map_of d pid"

text \<open>Modelled from the spec: \<open>ConcurrentDictionary::insert(key, value)\<close>, missing from the
  sources; it binds the key, in place of an older binding of it.\<close>

definition insert_entry :: "pid_t \<Rightarrow> procref \<Rightarrow> (pid_t \<times> procref) list \<Rightarrow> bool \<times> (pid_t \<times> procref) list" where
  "insert_entry key v d = (True, (key, v) # filter (\<lambda>e. fst e \<noteq> key) d)"

text \<open>Modelled from the spec: \<open>ConcurrentDictionary::removeProcess(pid)\<close>, missing from the
  sources; it removes the binding of the pid and returns whether there was one.\<close>

definition removeProcess :: "pid_t \<Rightarrow> (pid_t \<times> procref) list \<Rightarrow> bool \<times> (pid_t \<times> procref) list" where
  "removeProcess pid d = (map_of d pid \<noteq> None, filter (\<lambda>e. fst e \<noteq> pid) d)"

text \<open>Modelled from the spec: \<open>ConcurrentDictionary::insertProcess(process)\<close>, missing from
  the sources; "\<open>trackRoot\<close> inserts under the process's own id".\<close>

definition insertProcess :: "procref \<Rightarrow> Sandbox \<Rightarrow> bool \<times> Sandbox" where
  "insertProcess p s =
     (case insert_entry (getProcessId s p) p (trackedProcesses s) of
        (ok, d) \<Rightarrow> (ok, s\<lparr>trackedProcesses := d\<rparr>))"

text \<open>
  Modelled from the spec: \<open>ConcurrentMultiplexingQueue::removeQueues\<close>
  (ConcurrentMultiplexingQueue is not among the sources): "\<open>freeQueues\<close> releases all
  queues for a client". A client's bucket holds the number of its queues; removing
  reports whether the client had a bucket.
\<close>

definition removeQueues :: "pid_t \<Rightarrow> (pid_t \<times> nat) list \<Rightarrow> bool \<times> (pid_t \<times> nat) list" where
  "removeQueues key q = (map_of q key \<noteq> None, filter (\<lambda>e. fst e \<noteq> key) q)"

subsection \<open>BuildXLSandbox.cpp\<close>

definition FindTrackedProcess :: "Sandbox \<Rightarrow> pid_t \<Rightarrow> procref option" where
  "FindTrackedProcess s pid = getProcess (trackedProcesses s) pid"

text \<open>\<open>void UntrackProcess(pid_t pid, ProcessObject *process)\<close>: the \<open>do { ... } while (0)\<close>
  block is left by \<open>break\<close> when the pid has no mapping.\<close>

definition UntrackProcessObj :: "pid_t \<Rightarrow> procref \<Rightarrow> Sandbox \<Rightarrow> Sandbox" where
  "UntrackProcessObj pid process s =
     (case removeProcess pid (trackedProcesses s) of
        (removed, d) \<Rightarrow>
          if \<not> removed then s\<lparr>events := events s @ [ErrorNotFound pid]\<rparr>
          else
            let s1 = decrementProcessTreeCount process (s\<lparr>trackedProcesses := d\<rparr>)
            in if hasEmptyProcessTree s1 process
               then s1\<lparr>events := events s1 @ [TreeCompleted process]\<rparr>
               else s1)"

text \<open>\<open>bool UntrackProcess(pid_t pid, pipid_t expectedPipId)\<close>\<close>

definition UntrackProcess :: "pid_t \<Rightarrow> pipid_t \<Rightarrow> Sandbox \<Rightarrow> bool \<times> Sandbox" where
  "UntrackProcess pid expectedPipId s =
     (case FindTrackedProcess s pid of
        Some process \<Rightarrow>
          if expectedPipId = -1 \<or> getPipId s process = expectedPipId
          then (True, UntrackProcessObj pid process s)
          else (False, s)
      | None \<Rightarrow> (False, s))"

definition TrackRootProcess :: "procref \<Rightarrow> Sandbox \<Rightarrow> bool \<times> Sandbox" where
  "TrackRootProcess process s =
     (let pid = getProcessId s process;
          s1 = (case getProcess (trackedProcesses s) pid of
                  Some existingProcess \<Rightarrow> UntrackProcessObj pid existingProcess s
                | None \<Rightarrow> s)
      in insertProcess process s1)"

definition TrackChildProcess :: "pid_t \<Rightarrow> procref \<Rightarrow> Sandbox \<Rightarrow> bool \<times> Sandbox" where
  "TrackChildProcess childPid rootProcess s =
     (case getProcess (trackedProcesses s) childPid of
        Some existingProcess \<Rightarrow>
          (False,
           if getPipId s existingProcess \<noteq> getPipId s rootProcess \<and>
              getClientPid s existingProcess \<noteq> getClientPid s rootProcess
           then s\<lparr>events := events s @
                    [ErrorMismatch (getPipId s existingProcess) (getClientPid s existingProcess)
                                   (getPipId s rootProcess) (getClientPid s rootProcess)]\<rparr>
           else s)
      | None \<Rightarrow>
          (case insert_entry childPid rootProcess (trackedProcesses s) of
             (ok, d) \<Rightarrow> (True, incrementProcessTreeCount rootProcess (s\<lparr>trackedProcesses := d\<rparr>))))"

text \<open>
  \<open>FreeReportQueuesForClientProcess\<close>: the lambda handed to \<open>forEach\<close> is
  \<open>releaseCallback\<close>; for an entry whose object belongs to the client it calls
  \<open>removeProcess(context->ctxPid)\<close>, that is, with the client's pid. \<open>forEach\<close> visits
  the entries the dictionary has when it is called. The callback removes no key but
  the client's pid, so neither the order of the visits nor what an iteration does with
  an entry removed under it bears on any other key.
\<close>

definition releaseCallback :: "pid_t \<Rightarrow> (pid_t \<times> procref) \<Rightarrow> Sandbox \<Rightarrow> Sandbox" where
  "releaseCallback ctxPid entry s =
     (if getClientPid s (snd entry) = ctxPid
      then s\<lparr>trackedProcesses := snd (removeProcess ctxPid (trackedProcesses s))\<rparr>
      else s)"

definition FreeReportQueuesForClientProcess :: "pid_t \<Rightarrow> Sandbox \<Rightarrow> IOReturn \<times> Sandbox" where
  "FreeReportQueuesForClientProcess pid s =
     (case removeQueues pid (reportQueues s) of
        (success, q) \<Rightarrow>
          let s1 = s\<lparr>reportQueues := q\<rparr>;
              s2 = fold (releaseCallback pid) (trackedProcesses s1) s1
          in (if success then kIOReturnSuccess else kIOReturnError, s2))"

subsection \<open>Call sequences\<close>

text \<open>Linking a list of children to one root, and untracking a list of pids one by one
  with no expected pip id (\<open>-1\<close>), as the exit hook does.\<close>

definition trackChildren :: "pid_t list \<Rightarrow> procref \<Rightarrow> Sandbox \<Rightarrow> Sandbox" where
  "trackChildren cs rootProcess s = fold (\<lambda>c s'. snd (TrackChildProcess c rootProcess s')) cs s"

definition untrackEach :: "pid_t list \<Rightarrow> Sandbox \<Rightarrow> Sandbox" where
  "untrackEach ps s = fold (\<lambda>p s'. snd (UntrackProcess p (-1) s')) ps s"

definition trackTree :: "procref \<Rightarrow> pid_t list \<Rightarrow> Sandbox \<Rightarrow> Sandbox" where
  "trackTree rootProcess cs s = trackChildren cs rootProcess (snd (TrackRootProcess rootProcess s))"

text \<open>The completion reports that \<open>n\<close> successive decrements of a count \<open>c\<close> give rise to:
  the \<open>j\<close>-th decrement reports when it brings the count to zero.\<close>

definition firings :: "procref \<Rightarrow> 32 word \<Rightarrow> nat \<Rightarrow> event list" where
  "firings r c n = concat (map (\<lambda>j. if c = of_nat j then [TreeCompleted r] else []) [1 ..< Suc n])"

text \<open>A store with one object of client 7 for pid 100 and pip 42, whose count at
  creation is \<open>c\<close>; a second object of the same client for the same pid with another pip;
  an empty sandbox over them.\<close>

definition exampleObjects :: "32 word \<Rightarrow> procref \<Rightarrow> ProcessObject" where
  "exampleObjects c r =
     (if r = 0 then \<lparr>clientPid = 7, processId = 100, pipId = 42, processTreeCount = c\<rparr>
      else \<lparr>clientPid = 7, processId = 100, pipId = 43, processTreeCount = c\<rparr>)"

definition exampleSandbox :: "32 word \<Rightarrow> Sandbox" where
  "exampleSandbox c = \<lparr>trackedProcesses = [], objects = exampleObjects c, reportQueues = [(7, 1)], events = []\<rparr>"

text \<open>A sandbox in which child pid 101 is already linked to object 0 (client 7, pip 42);
  object 1 has the same client and another pip, object 2 another client and another pip.\<close>

definition mismatchSandbox :: Sandbox where
  "mismatchSandbox =
     \<lparr>trackedProcesses = [(101, 0)],
      objects = (\<lambda>r. if r = 0 then \<lparr>clientPid = 7, processId = 100, pipId = 42, processTreeCount = 2\<rparr>
                     else if r = 1 then \<lparr>clientPid = 7, processId = 200, pipId = 43, processTreeCount = 1\<rparr>
                     else \<lparr>clientPid = 8, processId = 300, pipId = 44, processTreeCount = 1\<rparr>),
      reportQueues = [], events = []\<rparr>"

section \<open>Trie (Trie.hpp)\<close>

text \<open>
  \<open>Node\<close> holds a record (an \<open>OSObject*\<close>, \<open>None\<close> for the null pointer) and the array
  of its children, of length \<open>childrenLength_\<close>, each a pointer to a child or null. The
  trie owns its nodes and they form a tree, so a \<open>Node*\<close> into a trie is the list of
  child indices that leads from the root to the node, and a nested datatype replaces
  the heap of nodes. Values are any type \<open>'v\<close>; a \<open>'v option\<close> is a possibly null
  \<open>OSObject*\<close>. Retain counts and allocation failures are not modelled: every
  \<open>createNode\<close> succeeds. The operations are the sequential ones: one call runs without
  interference of another, so the outcome \<open>kTrieResultRace\<close> does not arise.
\<close>

datatype 'v Node = Node (node_record: "'v option") (node_children: "'v Node option list")

definition s_pathNodeChildrenCount :: nat where
  "s_pathNodeChildrenCount = 65"

definition s_uintNodeChildrenCount :: nat where
  "s_uintNodeChildrenCount = 10"

datatype TrieResult =
    kTrieResultInserted
  | kTrieResultReplaced
  | kTrieResultRemoved
  | kTrieResultAlreadyEmpty
  | kTrieResultAlreadyExists
  | kTrieResultRace
  | kTrieResultFailure

datatype TrieKind = kUintTrie | kPathTrie

text \<open>\<open>size_\<close> is a C \<open>uint\<close>, a 32-bit word. The callback registered with \<open>onChange\<close> is
  an external function; the trie records whether one is registered and, in
  \<open>onChangeCalls\<close>, the pairs \<open>(oldCount, newCount)\<close> it has been invoked with.\<close>

record 'v Trie =
  root :: "'v Node"
  kind :: TrieKind
  trieSize :: "32 word"
  onChangeCallback :: bool
  onChangeCalls :: "(32 word \<times> 32 word) list"

subsection \<open>Nodes and pointers to nodes\<close>

text \<open>
  Modelled from the spec: \<open>Node::create\<close> and \<open>Node::init\<close> (Trie.cpp is not among the
  sources). The spec: a node holds "an array of child references (same fanout,
  initially absent), and at most one associated value reference".
\<close>

definition create :: "nat \<Rightarrow> 'v Node" where
  "create numChildren = Node None (replicate numChildren None)"

definition createUintNode :: "'v Node" where
  "createUintNode = create s_uintNodeChildrenCount"

definition createPathNode :: "'v Node" where
  "createPathNode = create s_pathNodeChildrenCount"

text \<open>Dereferencing a pointer: the node at an index path, and its \<open>record_\<close> field; writing
  the \<open>record_\<close> field of the node a pointer points to.\<close>

fun nodeAt :: "'v Node \<Rightarrow> nat list \<Rightarrow> 'v Node option" where
  "nodeAt n [] = Some n"
| "nodeAt n (i # p) =
     (if i < length (node_children n)
      then (case node_children n ! i of None \<Rightarrow> None | Some c \<Rightarrow> nodeAt c p)
      else None)"

definition recordAt :: "'v Node \<Rightarrow> nat list \<Rightarrow> 'v option" where
  "recordAt n p = (case nodeAt n p of None \<Rightarrow> None | Some x \<Rightarrow> node_record x)"

fun setRecord :: "nat list \<Rightarrow> 'v option \<Rightarrow> 'v Node \<Rightarrow> 'v Node" where
  "setRecord [] r n = Node r (node_children n)"
| "setRecord (i # p) r n =
     (if i < length (node_children n)
      then (case node_children n ! i of
              None \<Rightarrow> n
            | Some c \<Rightarrow> Node (node_record n) ((node_children n)[i := Some (setRecord p r c)]))
      else n)"

text \<open>The number of sentinel nodes (nodes with a record) reachable from a node, and the
  shape every node of a trie of one kind has: \<open>fanout\<close> children slots.\<close>

fun sentinels :: "'v Node \<Rightarrow> nat" where
  "sentinels (Node r cs) =
     (case r of None \<Rightarrow> 0 | Some _ \<Rightarrow> 1) +
     sum_list (map (\<lambda>c. case c of None \<Rightarrow> 0 | Some n \<Rightarrow> sentinels n) cs)"

fun wellFormed :: "nat \<Rightarrow> 'v Node \<Rightarrow> bool" where
  "wellFormed fanout (Node r cs) =
     (length cs = fanout \<and>
      list_all (\<lambda>c. case c of None \<Rightarrow> True | Some n \<Rightarrow> wellFormed fanout n) cs)"

subsection \<open>Private member functions\<close>

text \<open>\<open>createNode\<close> (in the header): the fanout of the node it creates.\<close>

definition createNodeFanout :: "TrieKind \<Rightarrow> nat" where
  "createNodeFanout k = (case k of kUintTrie \<Rightarrow> s_uintNodeChildrenCount | kPathTrie \<Rightarrow> s_pathNodeChildrenCount)"

text \<open>
  Modelled from the spec: \<open>Trie::ensureChildNodeExists\<close>, \<open>Trie::findPathNode\<close> and
  \<open>Trie::findUintNode\<close> (declared in Trie.hpp; their bodies, in Trie.cpp, are not among
  the sources). The header: \<open>ensureChildNodeExists\<close> "creates a child node of 'node' at
  position 'idx' if such a child node doesn't already exist"; \<open>idx\<close> "must be between 0
  (inclusive) and 'node.length()' (exclusive); otherwise this method returns false".
  \<open>findPathNode\<close> "traverses the trie until it gets to the node corresponding to the
  given 'key', creating new nodes as necessary"; it returns null when "the key is
  invalid (e.g., contains non-ascii characters)". The spec: "traverse from root
  consuming one key symbol per level, creating the needed child node on demand";
  "keys are case-folded before traversal for path tries"; a character \<open>ch\<close> is addressed
  by \<open>toupper(ch) - 32\<close>.

  A path key is a C string: the bytes up to the first NUL. Bytes are read as unsigned;
  read as signed, a byte above 127 gives a negative index, which is refused as well.
  An integer key is consumed as its decimal digits, least significant first, the
  fanout of an integer trie being 10 ("digit keys").
\<close>

definition ensureChildNodeExists :: "nat \<Rightarrow> 'v Node \<Rightarrow> int \<Rightarrow> bool \<times> 'v Node" where
  "ensureChildNodeExists fanout node idx =
     (if idx < 0 \<or> int (length (node_children node)) \<le> idx then (False, node)
      else (case node_children node ! nat idx of
              Some c \<Rightarrow> (True, node)
            | None \<Rightarrow> (True, Node (node_record node)
                                  ((node_children node)[nat idx := Some (create fanout)]))))"

fun findNode :: "nat \<Rightarrow> int list \<Rightarrow> 'v Node \<Rightarrow> nat list option \<times> 'v Node" where
  "findNode fanout [] node = (Some [], node)"
| "findNode fanout (idx # rest) node =
     (case ensureChildNodeExists fanout node idx of
        (False, node') \<Rightarrow> (None, node')
      | (True, node') \<Rightarrow>
          (case node_children node' ! nat idx of
             None \<Rightarrow> (None, node')
           | Some child \<Rightarrow>
               (case findNode fanout rest child of
                  (p, child') \<Rightarrow>
                    (map_option ((#) (nat idx)) p,
                     Node (node_record node') ((node_children node')[nat idx := Some child'])))))"

definition cstr :: "string \<Rightarrow> string" where
  "cstr key = takeWhile (\<lambda>c. c \<noteq> CHR 0x00) key"

definition toupper :: "nat \<Rightarrow> nat" where
  "toupper ch = (if 97 \<le> ch \<and> ch \<le> 122 then ch - 32 else ch)"

definition pathIndex :: "char \<Rightarrow> int" where
  "pathIndex ch = int (toupper (of_char ch)) - 32"

fun uintDigits :: "nat \<Rightarrow> nat list" where
  "uintDigits k = (if k < 10 then [k] else (k mod 10) # uintDigits (k div 10))"

declare uintDigits.simps [simp del]

text \<open>The traversal loop that \<open>findPathNode\<close> and \<open>findUintNode\<close> share, from the root of
  the trie along the indices of the key's symbols.\<close>

definition findFrom :: "int list \<Rightarrow> 'v Trie \<Rightarrow> nat list option \<times> 'v Trie" where
  "findFrom idxs t =
     (case findNode (createNodeFanout (kind t)) idxs (root t) of
        (p, r) \<Rightarrow> (p, t\<lparr>root := r\<rparr>))"

text \<open>Modelled from the spec: \<open>Trie::findPathNode\<close> and \<open>Trie::findUintNode\<close>, whose bodies are
  missing from the sources: the traversal along the key's symbols.\<close>

definition findPathNode :: "string \<Rightarrow> 'v Trie \<Rightarrow> nat list option \<times> 'v Trie" where
  "findPathNode key t = findFrom (map pathIndex (cstr key)) t"

definition findUintNode :: "64 word \<Rightarrow> 'v Trie \<Rightarrow> nat list option \<times> 'v Trie" where
  "findUintNode key t = findFrom (map int (uintDigits (unat key))) t"

text \<open>
  Modelled from the spec: \<open>Trie::triggerOnChange\<close>, \<open>Trie::makeSentinel\<close> and the
  node-level \<open>getOrAdd\<close>, \<open>get\<close>, \<open>replace\<close>, \<open>insert\<close> and \<open>remove\<close> (declared and
  documented in Trie.hpp; their bodies, in Trie.cpp, are not among the sources). Each
  follows its documentation in the header: \<open>triggerOnChange\<close> "invokes the
  'onChangeCallback_' if it's set and 'newCount' is different from 'oldCount'";
  \<open>insert\<close> associates the value "ONLY if no value is already associated with 'node'";
  \<open>replace\<close> "increments size, and returns 'kTrieResultInserted'" when there was no
  record and "releases the previous record, and returns 'kTrieResultReplaced'" when
  there was one; \<open>remove\<close> "releases that record, decrements the size, and returns
  'kTrieResultRemoved'", or returns \<open>kTrieResultAlreadyEmpty\<close>; a null node (or value)
  gives \<open>kTrieResultFailure\<close>, and null from \<open>get\<close> and \<open>getOrAdd\<close>. The second component
  of the result of \<open>getOrAdd_node\<close> is what is stored through its \<open>result\<close> pointer.
\<close>

definition triggerOnChange :: "32 word \<Rightarrow> 32 word \<Rightarrow> 'v Trie \<Rightarrow> 'v Trie" where
  "triggerOnChange oldCount newCount t =
     (if onChangeCallback t \<and> newCount \<noteq> oldCount
      then t\<lparr>onChangeCalls := onChangeCalls t @ [(oldCount, newCount)]\<rparr>
      else t)"

text \<open>Modelled from the spec: the node-level \<open>Trie::get\<close>, whose body is missing from the
  sources; it "returns the record associated with 'node' or NULL if either 'node' is
  NULL or no record is associated with it".\<close>

definition get_node :: "nat list option \<Rightarrow> 'v Trie \<Rightarrow> 'v option" where
  "get_node node t = (case node of None \<Rightarrow> None | Some p \<Rightarrow> recordAt (root t) p)"

text \<open>Modelled from the spec: \<open>Trie::makeSentinel\<close>, whose body is missing from the sources;
  it returns \<open>kTrieResultAlreadyExists\<close> "if 'node' already has a record" and
  \<open>kTrieResultInserted\<close> "if a new record was created and assigned to 'node'".\<close>

definition makeSentinel :: "nat list \<Rightarrow> 'a \<Rightarrow> ('a \<Rightarrow> 'v) \<Rightarrow> 'v Trie \<Rightarrow> TrieResult \<times> 'v Trie" where
  "makeSentinel p factoryArgs factory t =
     (case recordAt (root t) p of
        Some _ \<Rightarrow> (kTrieResultAlreadyExists, t)
      | None \<Rightarrow>
          (kTrieResultInserted,
           triggerOnChange (trieSize t) (trieSize t + 1)
             (t\<lparr>root := setRecord p (Some (factory factoryArgs)) (root t), trieSize := trieSize t + 1\<rparr>)))"

text \<open>Modelled from the spec: the node-level \<open>Trie::getOrAdd\<close>, whose body is missing from the
  sources; it "returns the record already assigned to 'node' or, if no record is
  assigned to it, creates a new one by invoking 'factory', assigns it to 'node', and
  returns it", and null for a null node.\<close>

definition getOrAdd_node ::
    "nat list option \<Rightarrow> 'a \<Rightarrow> ('a \<Rightarrow> 'v) \<Rightarrow> 'v Trie \<Rightarrow> ('v option \<times> TrieResult) \<times> 'v Trie" where
  "getOrAdd_node node factoryArgs factory t =
     (case node of
        None \<Rightarrow> ((None, kTrieResultFailure), t)
      | Some p \<Rightarrow>
          (case makeSentinel p factoryArgs factory t of
             (res, t') \<Rightarrow> ((recordAt (root t') p, res), t')))"

text \<open>Modelled from the spec: the node-level \<open>Trie::replace\<close>, whose body is missing from the
  sources.\<close>

definition replace_node :: "nat list option \<Rightarrow> 'v option \<Rightarrow> 'v Trie \<Rightarrow> TrieResult \<times> 'v Trie" where
  "replace_node node val t =
     (case (node, val) of
        (Some p, Some v) \<Rightarrow>
          (case recordAt (root t) p of
             Some _ \<Rightarrow> (kTrieResultReplaced, t\<lparr>root := setRecord p (Some v) (root t)\<rparr>)
           | None \<Rightarrow>
               (kTrieResultInserted,
                triggerOnChange (trieSize t) (trieSize t + 1)
                  (t\<lparr>root := setRecord p (Some v) (root t), trieSize := trieSize t + 1\<rparr>)))
      | _ \<Rightarrow> (kTrieResultFailure, t))"

text \<open>Modelled from the spec: the node-level \<open>Trie::insert\<close>, whose body is missing from the
  sources.\<close>

definition insert_node :: "nat list option \<Rightarrow> 'v option \<Rightarrow> 'v Trie \<Rightarrow> TrieResult \<times> 'v Trie" where
  "insert_node node val t =
     (case (node, val) of
        (Some p, Some v) \<Rightarrow>
          (case recordAt (root t) p of
             Some _ \<Rightarrow> (kTrieResultAlreadyExists, t)
           | None \<Rightarrow>
               (kTrieResultInserted,
                triggerOnChange (trieSize t) (trieSize t + 1)
                  (t\<lparr>root := setRecord p (Some v) (root t), trieSize := trieSize t + 1\<rparr>)))
      | _ \<Rightarrow> (kTrieResultFailure, t))"

text \<open>Modelled from the spec: the node-level \<open>Trie::remove\<close>, whose body is missing from the
  sources.\<close>

definition remove_node :: "nat list option \<Rightarrow> 'v Trie \<Rightarrow> TrieResult \<times> 'v Trie" where
  "remove_node node t =
     (case node of
        None \<Rightarrow> (kTrieResultFailure, t)
      | Some p \<Rightarrow>
          (case recordAt (root t) p of
             None \<Rightarrow> (kTrieResultAlreadyEmpty, t)
           | Some _ \<Rightarrow>
               (kTrieResultRemoved,
                triggerOnChange (trieSize t) (trieSize t - 1)
                  (t\<lparr>root := setRecord p None (root t), trieSize := trieSize t - 1\<rparr>))))"

text \<open>
  Modelled from the spec: \<open>Trie::create\<close>/\<open>Trie::init\<close> and \<open>Trie::onChange\<close> (bodies in
  Trie.cpp): a new trie has a fresh root of its kind, no entry and no callback;
  \<open>onChange\<close> registers the callback.
\<close>

definition createTrie :: "TrieKind \<Rightarrow> 'v Trie" where
  "createTrie k = \<lparr>root = create (createNodeFanout k), kind = k, trieSize = 0,
                   onChangeCallback = False, onChangeCalls = []\<rparr>"

definition createUintTrie :: "'v Trie" where
  "createUintTrie = createTrie kUintTrie"

definition createPathTrie :: "'v Trie" where
  "createPathTrie = createTrie kPathTrie"

definition onChange :: "'v Trie \<Rightarrow> bool \<times> 'v Trie" where
  "onChange t = (True, t\<lparr>onChangeCallback := True\<rparr>)"

subsection \<open>Public member functions (all defined in Trie.hpp)\<close>

definition getCount :: "'v Trie \<Rightarrow> 32 word" where
  "getCount t = trieSize t"

text \<open>\<open>OSDynamicCast(T, x)\<close> is \<open>x\<close> when \<open>x\<close> is a non-null object of class \<open>T\<close>, else null;
  \<open>isT\<close> tells the objects of class \<open>T\<close>.\<close>

definition OSDynamicCast :: "('v \<Rightarrow> bool) \<Rightarrow> 'v option \<Rightarrow> 'v option" where
  "OSDynamicCast isT x = (case x of None \<Rightarrow> None | Some v \<Rightarrow> if isT v then Some v else None)"

definition get_path :: "string \<Rightarrow> 'v Trie \<Rightarrow> 'v option \<times> 'v Trie" where
  "get_path path t =
     (if kind t \<noteq> kPathTrie then (None, t)
      else (case findPathNode path t of (node, t') \<Rightarrow> (get_node node t', t')))"

definition getAs_path :: "('v \<Rightarrow> bool) \<Rightarrow> string \<Rightarrow> 'v Trie \<Rightarrow> 'v option \<times> 'v Trie" where
  "getAs_path isT key t =
     (if kind t \<noteq> kPathTrie then (None, t)
      else (case get_path key t of (v, t') \<Rightarrow> (OSDynamicCast isT v, t')))"

definition getOrAdd_path ::
    "string \<Rightarrow> 'a \<Rightarrow> ('a \<Rightarrow> 'v) \<Rightarrow> 'v Trie \<Rightarrow> ('v option \<times> TrieResult option) \<times> 'v Trie" where
  "getOrAdd_path path factoryArgs factory t =
     (if kind t \<noteq> kPathTrie then ((None, None), t)
      else (case findPathNode path t of
              (node, t') \<Rightarrow>
                (case getOrAdd_node node factoryArgs factory t' of
                   ((v, res), t'') \<Rightarrow> ((v, Some res), t''))))"

definition replace_path :: "string \<Rightarrow> 'v option \<Rightarrow> 'v Trie \<Rightarrow> TrieResult \<times> 'v Trie" where
  "replace_path path val t =
     (if kind t \<noteq> kPathTrie then (kTrieResultFailure, t)
      else (case findPathNode path t of (node, t') \<Rightarrow> replace_node node val t'))"

definition insert_path :: "string \<Rightarrow> 'v option \<Rightarrow> 'v Trie \<Rightarrow> TrieResult \<times> 'v Trie" where
  "insert_path path val t =
     (if kind t \<noteq> kPathTrie then (kTrieResultFailure, t)
      else (case findPathNode path t of (node, t') \<Rightarrow> insert_node node val t'))"

definition remove_path :: "string \<Rightarrow> 'v Trie \<Rightarrow> TrieResult \<times> 'v Trie" where
  "remove_path key t =
     (if kind t \<noteq> kPathTrie then (kTrieResultFailure, t)
      else (case findPathNode key t of (node, t') \<Rightarrow> remove_node node t'))"

definition get_uint :: "64 word \<Rightarrow> 'v Trie \<Rightarrow> 'v option \<times> 'v Trie" where
  "get_uint key t =
     (if kind t \<noteq> kUintTrie then (None, t)
      else (case findUintNode key t of (node, t') \<Rightarrow> (get_node node t', t')))"

definition getAs_uint :: "('v \<Rightarrow> bool) \<Rightarrow> 64 word \<Rightarrow> 'v Trie \<Rightarrow> 'v option \<times> 'v Trie" where
  "getAs_uint isT key t =
     (if kind t \<noteq> kUintTrie then (None, t)
      else (case get_uint key t of (v, t') \<Rightarrow> (OSDynamicCast isT v, t')))"

definition getOrAdd_uint ::
    "64 word \<Rightarrow> 'a \<Rightarrow> ('a \<Rightarrow> 'v) \<Rightarrow> 'v Trie \<Rightarrow> ('v option \<times> TrieResult option) \<times> 'v Trie" where
  "getOrAdd_uint key factoryArgs factory t =
     (if kind t \<noteq> kUintTrie then ((None, None), t)
      else (case findUintNode key t of
              (node, t') \<Rightarrow>
                (case getOrAdd_node node factoryArgs factory t' of
                   ((v, res), t'') \<Rightarrow> ((v, Some res), t''))))"

definition replace_uint :: "64 word \<Rightarrow> 'v option \<Rightarrow> 'v Trie \<Rightarrow> TrieResult \<times> 'v Trie" where
  "replace_uint key val t =
     (if kind t \<noteq> kUintTrie then (kTrieResultFailure, t)
      else (case findUintNode key t of (node, t') \<Rightarrow> replace_node node val t'))"

definition insert_uint :: "64 word \<Rightarrow> 'v option \<Rightarrow> 'v Trie \<Rightarrow> TrieResult \<times> 'v Trie" where
  "insert_uint key val t =
     (if kind t \<noteq> kUintTrie then (kTrieResultFailure, t)
      else (case findUintNode key t of (node, t') \<Rightarrow> insert_node node val t'))"

definition remove_uint :: "64 word \<Rightarrow> 'v Trie \<Rightarrow> TrieResult \<times> 'v Trie" where
  "remove_uint key t =
     (if kind t \<noteq> kUintTrie then (kTrieResultFailure, t)
      else (case findUintNode key t of (node, t') \<Rightarrow> remove_node node t'))"

subsection \<open>Notions used to state the properties of the trie\<close>

text \<open>The child a traversal step descends into: the existing one, or the one that
  \<open>ensureChildNodeExists\<close> has just created.\<close>

definition childOrNew :: "nat \<Rightarrow> 'v Node \<Rightarrow> nat \<Rightarrow> 'v Node" where
  "childOrNew f n i = (case node_children n ! i of None \<Rightarrow> create f | Some c \<Rightarrow> c)"

text \<open>The counter invariant, and the shape every trie of a kind keeps.\<close>

definition counterInv :: "'v Trie \<Rightarrow> bool" where
  "counterInv t = (trieSize t = of_nat (sentinels (root t)))"

definition shapeInv :: "'v Trie \<Rightarrow> bool" where
  "shapeInv t = wellFormed (createNodeFanout (kind t)) (root t)"

text \<open>Two tries hold the same entries: the same record (or none) at every index path,
  hence the same number of sentinels, and the same kind, counter and callback state.
  They may differ in nodes that hold no record.\<close>

definition sameEntries :: "'v Trie \<Rightarrow> 'v Trie \<Rightarrow> bool" where
  "sameEntries t t' =
     (kind t' = kind t \<and> trieSize t' = trieSize t \<and>
      onChangeCallback t' = onChangeCallback t \<and> onChangeCalls t' = onChangeCalls t \<and>
      sentinels (root t') = sentinels (root t) \<and>
      (\<forall>q. recordAt (root t') q = recordAt (root t) q))"

text \<open>The operations of the public interface that take a key, as values, so that a
  property can speak of every operation and of every sequence of operations. The
  result code is \<open>None\<close> where the operation produces none (\<open>get\<close>, and \<open>getOrAdd\<close>
  refused for the kind of its key).\<close>

datatype TrieKey = PathKey string | UintKey "64 word"

datatype ('a, 'v) TrieOp =
    OpGet TrieKey
  | OpGetOrAdd TrieKey 'a "'a \<Rightarrow> 'v"
  | OpReplace TrieKey "'v option"
  | OpInsert TrieKey "'v option"
  | OpRemove TrieKey

fun applyOp :: "('a, 'v) TrieOp \<Rightarrow> 'v Trie \<Rightarrow> TrieResult option \<times> 'v Trie" where
  "applyOp (OpGet (PathKey k)) t = (None, snd (get_path k t))"
| "applyOp (OpGet (UintKey k)) t = (None, snd (get_uint k t))"
| "applyOp (OpGetOrAdd (PathKey k) a f) t = (snd (fst (getOrAdd_path k a f t)), snd (getOrAdd_path k a f t))"
| "applyOp (OpGetOrAdd (UintKey k) a f) t = (snd (fst (getOrAdd_uint k a f t)), snd (getOrAdd_uint k a f t))"
| "applyOp (OpReplace (PathKey k) v) t = (Some (fst (replace_path k v t)), snd (replace_path k v t))"
| "applyOp (OpReplace (UintKey k) v) t = (Some (fst (replace_uint k v t)), snd (replace_uint k v t))"
| "applyOp (OpInsert (PathKey k) v) t = (Some (fst (insert_path k v t)), snd (insert_path k v t))"
| "applyOp (OpInsert (UintKey k) v) t = (Some (fst (insert_uint k v t)), snd (insert_uint k v t))"
| "applyOp (OpRemove (PathKey k)) t = (Some (fst (remove_path k t)), snd (remove_path k t))"
| "applyOp (OpRemove (UintKey k)) t = (Some (fst (remove_uint k t)), snd (remove_uint k t))"

definition applyOps :: "('a, 'v) TrieOp list \<Rightarrow> 'v Trie \<Rightarrow> 'v Trie" where
  "applyOps ops t = fold (\<lambda>op t'. snd (applyOp op t')) ops t"

text \<open>By how much a result code says the number of stored values has changed, and what
  a step from \<open>t\<close> to \<open>t'\<close> with that result code must have done to the stored values,
  the counter and the callback.\<close>

definition countChange :: "TrieResult option \<Rightarrow> int" where
  "countChange res =
     (if res = Some kTrieResultInserted then 1
      else if res = Some kTrieResultRemoved then -1
      else 0)"

definition accounted :: "'v Trie \<Rightarrow> TrieResult option \<Rightarrow> 'v Trie \<Rightarrow> bool" where
  "accounted t res t' =
     (kind t' = kind t \<and> onChangeCallback t' = onChangeCallback t \<and>
      int (sentinels (root t')) = int (sentinels (root t)) + countChange res \<and>
      trieSize t' = trieSize t + of_int (countChange res) \<and>
      onChangeCalls t' =
        onChangeCalls t @
        (if onChangeCallback t \<and> countChange res \<noteq> 0 then [(trieSize t, trieSize t')] else []))"

text \<open>A path key folded as the traversal folds it: the bytes of the C string, each
  through \<open>toupper\<close>. A byte is addressable when it is between 32 and 122.\<close>

definition caseFold :: "string \<Rightarrow> nat list" where
  "caseFold key = map (\<lambda>c. toupper (of_char c)) (cstr key)"

definition addressable :: "char \<Rightarrow> bool" where
  "addressable c = (32 \<le> (of_char c :: nat) \<and> (of_char c :: nat) \<le> 122)"

text \<open>Equality of path keys up to ASCII case, stated without any folding function: two
  bytes are the same letter when they are equal, or one is an upper-case letter
  (65 to 90, \<open>A\<close> to \<open>Z\<close>) and the other is the lower-case letter 32 above it; two keys
  are equal up to case when their C strings have the same length and hold the same
  letter at every position.\<close>

definition sameLetter :: "char \<Rightarrow> char \<Rightarrow> bool" where
  "sameLetter c d =
     (c = d \<or>
      (65 \<le> (of_char c :: nat) \<and> (of_char c :: nat) \<le> 90 \<and> (of_char d :: nat) = of_char c + 32) \<or>
      (65 \<le> (of_char d :: nat) \<and> (of_char d :: nat) \<le> 90 \<and> (of_char c :: nat) = of_char d + 32))"

definition equalUpToCase :: "string \<Rightarrow> string \<Rightarrow> bool" where
  "equalUpToCase k1 k2 = list_all2 sameLetter (cstr k1) (cstr k2)"


section \<open>Properties of the process tracker\<close>

lemma map_of_filter_fst:
  "map_of (filter (\<lambda>e. fst e \<noteq> k) d) k' = (if k' = k then None else map_of d k')"
  by (induction d) auto

lemma getProcess_removeProcess:
  "getProcess (snd (removeProcess pid d)) k = (if k = pid then None else getProcess d k)"
  by (simp add: getProcess_def removeProcess_def map_of_filter_fst)

lemma getProcess_insert_entry:
  "getProcess (snd (insert_entry key v d)) k = (if k = key then Some v else getProcess d k)"
  by (simp add: getProcess_def insert_entry_def map_of_filter_fst)

lemma UntrackProcessObj_tracked:
  assumes "getProcess (trackedProcesses s) pid = Some q"
  shows "UntrackProcessObj pid p s =
           (let s1 = decrementProcessTreeCount p (s\<lparr>trackedProcesses := snd (removeProcess pid (trackedProcesses s))\<rparr>)
            in if processTreeCount (objects s p) = 1 then s1\<lparr>events := events s @ [TreeCompleted p]\<rparr> else s1)"
  using assms
  by (simp add: UntrackProcessObj_def removeProcess_def getProcess_def Let_def
      hasEmptyProcessTree_def decrementProcessTreeCount_def)

lemma UntrackProcess_tracked:
  assumes "getProcess (trackedProcesses s) pid = Some p"
  shows "snd (UntrackProcess pid (-1) s) =
           s\<lparr>trackedProcesses := snd (removeProcess pid (trackedProcesses s)),
             objects := (objects s)(p := (objects s p)\<lparr>processTreeCount := processTreeCount (objects s p) - 1\<rparr>),
             events := events s @ (if processTreeCount (objects s p) = 1 then [TreeCompleted p] else [])\<rparr>"
  using assms
  by (simp add: UntrackProcess_def FindTrackedProcess_def UntrackProcessObj_tracked
      decrementProcessTreeCount_def Let_def)

lemma TrackChildProcess_fresh:
  assumes "getProcess (trackedProcesses s) c = None"
  shows "snd (TrackChildProcess c r s) =
           s\<lparr>trackedProcesses := snd (insert_entry c r (trackedProcesses s)),
             objects := (objects s)(r := (objects s r)\<lparr>processTreeCount := processTreeCount (objects s r) + 1\<rparr>)\<rparr>"
  using assms
  by (simp add: TrackChildProcess_def incrementProcessTreeCount_def insert_entry_def)

lemma trackChildren_effect:
  assumes "distinct cs" and "\<forall>c \<in> set cs. getProcess (trackedProcesses s) c = None"
  shows "(\<forall>k. getProcess (trackedProcesses (trackChildren cs r s)) k =
              (if k \<in> set cs then Some r else getProcess (trackedProcesses s) k)) \<and>
         (\<forall>q. objects (trackChildren cs r s) q =
           (if q = r then (objects s r)\<lparr>processTreeCount := processTreeCount (objects s r) + of_nat (length cs)\<rparr>
            else objects s q)) \<and>
         events (trackChildren cs r s) = events s \<and>
         reportQueues (trackChildren cs r s) = reportQueues s"
  using assms
proof (induction cs arbitrary: s)
  case Nil
  then show ?case by (simp add: trackChildren_def)
next
  case (Cons c cs)
  define s1 where "s1 = snd (TrackChildProcess c r s)"
  have fresh: "getProcess (trackedProcesses s) c = None" using Cons.prems by simp
  have look1: "\<And>k. getProcess (trackedProcesses s1) k = (if k = c then Some r else getProcess (trackedProcesses s) k)"
    by (simp add: s1_def TrackChildProcess_fresh[OF fresh] getProcess_insert_entry)
  have obj1: "objects s1 = (objects s)(r := (objects s r)\<lparr>processTreeCount := processTreeCount (objects s r) + 1\<rparr>)"
    and ev1: "events s1 = events s" and rq1: "reportQueues s1 = reportQueues s"
    by (simp_all add: s1_def TrackChildProcess_fresh[OF fresh])
  have pre: "\<forall>c' \<in> set cs. getProcess (trackedProcesses s1) c' = None"
    using Cons.prems by (auto simp: look1)
  have d: "distinct cs" using Cons.prems by simp
  have unf: "trackChildren (c # cs) r s = trackChildren cs r s1"
    by (simp add: trackChildren_def s1_def)
  note IH = Cons.IH[OF d pre]
  have "\<forall>k. getProcess (trackedProcesses (trackChildren cs r s1)) k =
              (if k \<in> set (c # cs) then Some r else getProcess (trackedProcesses s) k)"
    using IH by (simp add: look1)
  moreover have "\<forall>q. objects (trackChildren cs r s1) q =
           (if q = r then (objects s r)\<lparr>processTreeCount := processTreeCount (objects s r) + of_nat (length (c # cs))\<rparr>
            else objects s q)"
    using IH by (simp add: obj1 add.assoc)
  moreover have "events (trackChildren cs r s1) = events s" "reportQueues (trackChildren cs r s1) = reportQueues s"
    using IH by (simp_all add: ev1 rq1)
  ultimately show ?case unfolding unf by blast
qed

lemma firings_Suc: "firings r c (Suc n) = (if c = 1 then [TreeCompleted r] else []) @ firings r (c - 1) n"
proof -
  have shift: "[1 ..< Suc (Suc n)] = 1 # map Suc [1 ..< Suc n]"
    by (metis One_nat_def map_Suc_upt upt_conv_Cons zero_less_Suc Suc_less_eq)
  have eqv: "\<And>j. (c = of_nat (Suc j)) = (c - 1 = of_nat j)"
    by (auto simp: algebra_simps)
  show ?thesis
    unfolding firings_def shift
    by (simp add: comp_def eqv del: upt_Suc of_nat_Suc)
qed

lemma untrackEach_effect:
  assumes "distinct ps" and "\<forall>p \<in> set ps. getProcess (trackedProcesses s) p = Some r"
  shows "(\<forall>k. getProcess (trackedProcesses (untrackEach ps s)) k =
              (if k \<in> set ps then None else getProcess (trackedProcesses s) k)) \<and>
         (\<forall>q. objects (untrackEach ps s) q =
           (if q = r then (objects s r)\<lparr>processTreeCount := processTreeCount (objects s r) - of_nat (length ps)\<rparr>
            else objects s q)) \<and>
         events (untrackEach ps s) = events s @ firings r (processTreeCount (objects s r)) (length ps) \<and>
         reportQueues (untrackEach ps s) = reportQueues s"
  using assms
proof (induction ps arbitrary: s)
  case Nil
  then show ?case by (simp add: untrackEach_def firings_def)
next
  case (Cons p ps)
  define s1 where "s1 = snd (UntrackProcess p (-1) s)"
  have tr: "getProcess (trackedProcesses s) p = Some r" using Cons.prems by simp
  have look1: "\<And>k. getProcess (trackedProcesses s1) k = (if k = p then None else getProcess (trackedProcesses s) k)"
    by (simp add: s1_def UntrackProcess_tracked[OF tr] getProcess_removeProcess)
  have obj1: "objects s1 = (objects s)(r := (objects s r)\<lparr>processTreeCount := processTreeCount (objects s r) - 1\<rparr>)"
    and ev1: "events s1 = events s @ (if processTreeCount (objects s r) = 1 then [TreeCompleted r] else [])"
    and rq1: "reportQueues s1 = reportQueues s"
    by (simp_all add: s1_def UntrackProcess_tracked[OF tr])
  have pre: "\<forall>p' \<in> set ps. getProcess (trackedProcesses s1) p' = Some r"
    using Cons.prems by (auto simp: look1)
  have d: "distinct ps" using Cons.prems by simp
  have unf: "untrackEach (p # ps) s = untrackEach ps s1"
    by (simp add: untrackEach_def s1_def)
  note IH = Cons.IH[OF d pre]
  have "\<forall>k. getProcess (trackedProcesses (untrackEach ps s1)) k =
              (if k \<in> set (p # ps) then None else getProcess (trackedProcesses s) k)"
    using IH by (simp add: look1)
  moreover have "\<forall>q. objects (untrackEach ps s1) q =
           (if q = r then (objects s r)\<lparr>processTreeCount := processTreeCount (objects s r) - of_nat (length (p # ps))\<rparr>
            else objects s q)"
    using IH by (simp add: obj1 diff_diff_eq)
  moreover have "events (untrackEach ps s1) = events s @ firings r (processTreeCount (objects s r)) (length (p # ps))"
    using IH by (simp add: obj1 ev1 firings_Suc)
  moreover have "reportQueues (untrackEach ps s1) = reportQueues s"
    using IH by (simp add: rq1)
  ultimately show ?case unfolding unf by blast
qed


lemma firings_closed:
  assumes "n < 2 ^ 32"
  shows "firings r c n = (if 1 \<le> unat c \<and> unat c \<le> n then [TreeCompleted r] else [])"
  using assms
proof (induction n)
  case 0
  then show ?case by (simp add: firings_def)
next
  case (Suc n)
  have snoc: "firings r c (Suc n) = firings r c n @ (if c = of_nat (Suc n) then [TreeCompleted r] else [])"
    by (simp add: firings_def)
  have inv: "unat (of_nat (Suc n) :: 32 word) = Suc n"
    using Suc.prems by (simp add: unat_of_nat del: of_nat_Suc)
  have eqv: "(c = of_nat (Suc n)) = (unat c = Suc n)"
    using inv by (auto simp: word_unat_eq_iff)
  have IH: "firings r c n = (if 1 \<le> unat c \<and> unat c \<le> n then [TreeCompleted r] else [])"
    using Suc by simp
  show ?case unfolding snoc IH eqv by auto
qed

lemma TrackRootProcess_fresh:
  assumes "getProcess (trackedProcesses s) (getProcessId s p) = None"
  shows "TrackRootProcess p s = (True, s\<lparr>trackedProcesses := snd (insert_entry (getProcessId s p) p (trackedProcesses s))\<rparr>)"
  using assms
  by (simp add: TrackRootProcess_def insertProcess_def insert_entry_def Let_def)

lemma trackTree_effect:
  assumes rp: "getProcessId s0 rootProcess = rootPid"
    and fresh: "\<forall>p \<in> set (rootPid # cs). FindTrackedProcess s0 p = None"
    and dist: "distinct (rootPid # cs)"
  shows "(\<forall>k. FindTrackedProcess (trackTree rootProcess cs s0) k =
              (if k \<in> set (rootPid # cs) then Some rootProcess else FindTrackedProcess s0 k)) \<and>
         (\<forall>q. objects (trackTree rootProcess cs s0) q =
           (if q = rootProcess then (objects s0 rootProcess)\<lparr>processTreeCount := processTreeCount (objects s0 rootProcess) + of_nat (length cs)\<rparr>
            else objects s0 q)) \<and>
         events (trackTree rootProcess cs s0) = events s0 \<and>
         reportQueues (trackTree rootProcess cs s0) = reportQueues s0"
proof -
  define s1 where "s1 = snd (TrackRootProcess rootProcess s0)"
  have f0: "getProcess (trackedProcesses s0) (getProcessId s0 rootProcess) = None"
    using fresh rp by (simp add: FindTrackedProcess_def)
  have look1: "\<And>k. getProcess (trackedProcesses s1) k = (if k = rootPid then Some rootProcess else getProcess (trackedProcesses s0) k)"
    by (simp add: s1_def TrackRootProcess_fresh[OF f0] getProcess_insert_entry rp)
  have obj1: "objects s1 = objects s0" and ev1: "events s1 = events s0" and rq1: "reportQueues s1 = reportQueues s0"
    by (simp_all add: s1_def TrackRootProcess_fresh[OF f0])
  have d: "distinct cs" using dist by simp
  have pre: "\<forall>c \<in> set cs. getProcess (trackedProcesses s1) c = None"
    using fresh dist by (auto simp: look1 FindTrackedProcess_def)
  note E = trackChildren_effect[OF d pre, of rootProcess]
  have unf: "trackTree rootProcess cs s0 = trackChildren cs rootProcess s1"
    by (simp add: trackTree_def s1_def)
  show ?thesis
    unfolding unf FindTrackedProcess_def using E
    by (simp add: look1 obj1 ev1 rq1)
qed

text \<open>
  Claim C1, as the code has it. Tracking a root leaves its count alone and every linked
  child adds one, so after a root with \<open>K\<close> children has been tracked the count is the
  count at creation plus \<open>K\<close>. Untracking the tree members one by one, in any order,
  reports tree completion exactly on the call that brings the count to zero and on no
  other call. That is the \<open>(K+1)\<close>-th call when the count at creation is 1, and the
  \<open>K\<close>-th call when it is 0.
\<close>

theorem completion_fires_when_count_reaches_zero:
  assumes rp: "getProcessId s0 rootProcess = rootPid"
    and fresh: "\<forall>p \<in> set (rootPid # cs). FindTrackedProcess s0 p = None"
    and dist: "distinct (rootPid # cs)"
    and perm: "distinct us" "set us = set (rootPid # cs)"
    and i: "i \<le> Suc (length cs)"
    and bound: "Suc (length cs) < 2 ^ 32"
  shows "events (untrackEach (take i us) (trackTree rootProcess cs s0)) =
           events s0 @
           (if 1 \<le> unat (getProcessTreeCount s0 rootProcess + of_nat (length cs)) \<and>
               unat (getProcessTreeCount s0 rootProcess + of_nat (length cs)) \<le> i
            then [TreeCompleted rootProcess] else []) \<and>
         (getProcessTreeCount s0 rootProcess = 1 \<longrightarrow>
            events (untrackEach (take i us) (trackTree rootProcess cs s0)) =
              events s0 @ (if i = Suc (length cs) then [TreeCompleted rootProcess] else [])) \<and>
         (getProcessTreeCount s0 rootProcess = 0 \<longrightarrow>
            events (untrackEach (take i us) (trackTree rootProcess cs s0)) =
              events s0 @ (if 1 \<le> length cs \<and> length cs \<le> i then [TreeCompleted rootProcess] else []))"
proof -
  define s2 where "s2 = trackTree rootProcess cs s0"
  note T = trackTree_effect[OF rp fresh dist, folded s2_def]
  have len: "length us = Suc (length cs)"
    using perm dist by (metis distinct_card length_Cons)
  have li: "length (take i us) = i" using i len by simp
  have d: "distinct (take i us)" using perm(1) by simp
  have sub: "set (take i us) \<subseteq> set (rootPid # cs)"
    using perm(2) set_take_subset by fastforce
  have pre: "\<forall>p \<in> set (take i us). getProcess (trackedProcesses s2) p = Some rootProcess"
    using T sub by (auto simp: FindTrackedProcess_def)
  note U = untrackEach_effect[OF d pre]
  have cnt: "processTreeCount (objects s2 rootProcess) = getProcessTreeCount s0 rootProcess + of_nat (length cs)"
    using T by (simp add: getProcessTreeCount_def)
  have ibound: "i < 2 ^ 32" using i bound by simp
  have main: "events (untrackEach (take i us) s2) =
           events s0 @
           (if 1 \<le> unat (getProcessTreeCount s0 rootProcess + of_nat (length cs)) \<and>
               unat (getProcessTreeCount s0 rootProcess + of_nat (length cs)) \<le> i
            then [TreeCompleted rootProcess] else [])"
  proof -
    have "events (untrackEach (take i us) s2) =
            events s2 @ firings rootProcess (processTreeCount (objects s2 rootProcess)) (length (take i us))"
      using U by blast
    moreover have "events s2 = events s0" using T by blast
    ultimately show ?thesis
      by (simp only: li cnt firings_closed[OF ibound])
  qed
  have one: "unat (1 + of_nat (length cs) :: 32 word) = Suc (length cs)"
  proof -
    have "unat (of_nat (Suc (length cs)) :: 32 word) = Suc (length cs)"
      using bound by (simp add: unat_of_nat del: of_nat_Suc)
    then show ?thesis by simp
  qed
  have zero: "unat (of_nat (length cs) :: 32 word) = length cs"
    using bound by (simp add: unat_of_nat)
  show ?thesis
    unfolding s2_def[symmetric] main using i
    by (auto simp: one zero)
qed

lemmas tracker_defs =
  exampleSandbox_def exampleObjects_def trackTree_def trackChildren_def untrackEach_def
  TrackRootProcess_def TrackChildProcess_def UntrackProcess_def UntrackProcessObj_def
  FindTrackedProcess_def getProcess_def insertProcess_def insert_entry_def removeProcess_def
  getProcessId_def getPipId_def getClientPid_def getProcessTreeCount_def
  hasEmptyProcessTree_def incrementProcessTreeCount_def decrementProcessTreeCount_def
  FreeReportQueuesForClientProcess_def releaseCallback_def removeQueues_def Let_def

theorem completion_fires_when_count_reaches_zero_witness:
  "events (untrackEach [101, 102, 100] (trackTree 0 [101, 102] (exampleSandbox 1))) = [TreeCompleted 0] \<and>
   events (untrackEach [101, 102] (trackTree 0 [101, 102] (exampleSandbox 1))) = [] \<and>
   events (untrackEach [102, 101] (trackTree 0 [101, 102] (exampleSandbox 0))) = [TreeCompleted 0]"
proof -
  have rp: "getProcessId (exampleSandbox c) 0 = 100" for c
    by (simp add: exampleSandbox_def exampleObjects_def getProcessId_def)
  have fresh: "\<forall>p \<in> set (100 # [101, 102]). FindTrackedProcess (exampleSandbox c) p = None" for c
    by (simp add: exampleSandbox_def FindTrackedProcess_def getProcess_def)
  have dist: "distinct ((100::int) # [101, 102])" by simp
  have perm: "distinct [101::int, 102, 100]" "set [101::int, 102, 100] = set (100 # [101, 102])"
    and perm': "distinct [102::int, 101, 100]" "set [102::int, 101, 100] = set (100 # [101, 102])"
    by auto
  have bound: "Suc (length [101::int, 102]) < 2 ^ 32" by simp
  have c1: "getProcessTreeCount (exampleSandbox c) 0 = c" for c
    by (simp add: exampleSandbox_def exampleObjects_def getProcessTreeCount_def)
  have ev: "events (exampleSandbox c) = []" for c by (simp add: exampleSandbox_def)
  have i3: "(3::nat) \<le> Suc (length [101::int, 102])" and i2: "(2::nat) \<le> Suc (length [101::int, 102])"
    by simp_all
  from completion_fires_when_count_reaches_zero[OF rp fresh dist perm i3 bound, of 1]
       completion_fires_when_count_reaches_zero[OF rp fresh dist perm i2 bound, of 1]
       completion_fires_when_count_reaches_zero[OF rp fresh dist perm' i2 bound, of 0]
  show ?thesis by (simp add: c1 ev)
qed

text \<open>
  Claim C1 as stated fails: with the count 0 at creation, root pid 100 and children 101
  and 102, completion is reported by the second untrack call (of 102), not the third.
\<close>

theorem completion_third_untrack_counterexample:
  "events (untrackEach [101] (trackTree 0 [101, 102] (exampleSandbox 0))) = [] \<and>
   events (untrackEach [101, 102] (trackTree 0 [101, 102] (exampleSandbox 0))) = [TreeCompleted 0] \<and>
   events (untrackEach [101, 102, 100] (trackTree 0 [101, 102] (exampleSandbox 0))) = [TreeCompleted 0]"
  by (simp add: tracker_defs)

text \<open>
  Claim C2 at a concrete input: client 7 owns the tracked root pid 100. Freeing the
  client's queues succeeds, and pid 100 is still tracked for client 7 afterwards, since
  the callback removes the entry keyed by the client's pid.
\<close>

theorem freeQueues_leaves_client_entity:
  "fst (FreeReportQueuesForClientProcess 7 (snd (TrackRootProcess 0 (exampleSandbox 1)))) = kIOReturnSuccess \<and>
   FindTrackedProcess (snd (FreeReportQueuesForClientProcess 7 (snd (TrackRootProcess 0 (exampleSandbox 1))))) 100 = Some 0 \<and>
   getClientPid (snd (FreeReportQueuesForClientProcess 7 (snd (TrackRootProcess 0 (exampleSandbox 1))))) 0 = 7"
  by (simp add: tracker_defs)

text \<open>
  Claim C3, as the code has it. \<open>TrackChildProcess\<close> for a child pid that is already
  tracked returns false and leaves the dictionary, every object (so every count) and
  the queues as they were; the existing entry stays. When the existing object differs
  from the intended root in both the pip id and the client pid, one data-consistency
  error is logged; when it agrees in both, the state is unchanged altogether.
\<close>

theorem TrackChildProcess_already_tracked:
  assumes "FindTrackedProcess s childPid = Some existing"
  shows "fst (TrackChildProcess childPid rootProcess s) = False \<and>
         trackedProcesses (snd (TrackChildProcess childPid rootProcess s)) = trackedProcesses s \<and>
         objects (snd (TrackChildProcess childPid rootProcess s)) = objects s \<and>
         reportQueues (snd (TrackChildProcess childPid rootProcess s)) = reportQueues s \<and>
         (getPipId s existing \<noteq> getPipId s rootProcess \<and> getClientPid s existing \<noteq> getClientPid s rootProcess \<longrightarrow>
            events (snd (TrackChildProcess childPid rootProcess s)) =
              events s @ [ErrorMismatch (getPipId s existing) (getClientPid s existing)
                                         (getPipId s rootProcess) (getClientPid s rootProcess)]) \<and>
         (getPipId s existing = getPipId s rootProcess \<and> getClientPid s existing = getClientPid s rootProcess \<longrightarrow>
            snd (TrackChildProcess childPid rootProcess s) = s)"
  using assms
  by (simp add: TrackChildProcess_def FindTrackedProcess_def)

theorem TrackChildProcess_already_tracked_witness:
  "fst (TrackChildProcess 101 2 mismatchSandbox) = False \<and>
   trackedProcesses (snd (TrackChildProcess 101 2 mismatchSandbox)) = [(101, 0)] \<and>
   events (snd (TrackChildProcess 101 2 mismatchSandbox)) = [ErrorMismatch 42 7 44 8] \<and>
   snd (TrackChildProcess 101 0 mismatchSandbox) = mismatchSandbox"
proof -
  have tr: "FindTrackedProcess mismatchSandbox 101 = Some 0"
    by (simp add: mismatchSandbox_def FindTrackedProcess_def getProcess_def)
  have ids: "getPipId mismatchSandbox 0 = 42" "getClientPid mismatchSandbox 0 = 7"
            "getPipId mismatchSandbox 2 = 44" "getClientPid mismatchSandbox 2 = 8"
    by (simp_all add: mismatchSandbox_def getPipId_def getClientPid_def)
  have st: "trackedProcesses mismatchSandbox = [(101, 0)]" "events mismatchSandbox = []"
    by (simp_all add: mismatchSandbox_def)
  from TrackChildProcess_already_tracked[OF tr, of 2] TrackChildProcess_already_tracked[OF tr, of 0]
  show ?thesis by (simp add: ids st)
qed

text \<open>
  Claim C3 as stated fails: pid 101 is tracked under object 0 (pip 42), the intended root
  is object 1 (pip 43, same client), and no error is logged.
\<close>

theorem TrackChildProcess_pip_mismatch_counterexample:
  "getPipId mismatchSandbox 0 \<noteq> getPipId mismatchSandbox 1 \<and>
   FindTrackedProcess mismatchSandbox 101 = Some 0 \<and>
   events (snd (TrackChildProcess 101 1 mismatchSandbox)) = []"
  by (simp add: mismatchSandbox_def tracker_defs)

text \<open>
  Claim C4. \<open>UntrackProcess(pid, expectedPipId)\<close> returns true if and only if the pid is
  tracked and the expected pip id is \<open>-1\<close> or equals the pip id of the object found. In
  that case the mapping of the pid is removed, every other mapping is kept, the count of
  the object is decremented by one and no other object changes. Otherwise the state is
  unchanged.
\<close>

theorem UntrackProcess_unlinks_iff:
  "(fst (UntrackProcess pid expectedPipId s) \<longleftrightarrow>
      (\<exists>p. FindTrackedProcess s pid = Some p \<and> (expectedPipId = -1 \<or> getPipId s p = expectedPipId))) \<and>
   (\<forall>p. FindTrackedProcess s pid = Some p \<and> (expectedPipId = -1 \<or> getPipId s p = expectedPipId) \<longrightarrow>
      FindTrackedProcess (snd (UntrackProcess pid expectedPipId s)) pid = None \<and>
      (\<forall>k. k \<noteq> pid \<longrightarrow>
         FindTrackedProcess (snd (UntrackProcess pid expectedPipId s)) k = FindTrackedProcess s k) \<and>
      getProcessTreeCount (snd (UntrackProcess pid expectedPipId s)) p = getProcessTreeCount s p - 1 \<and>
      (\<forall>q. q \<noteq> p \<longrightarrow> objects (snd (UntrackProcess pid expectedPipId s)) q = objects s q)) \<and>
   (\<not> fst (UntrackProcess pid expectedPipId s) \<longrightarrow> snd (UntrackProcess pid expectedPipId s) = s)"
  by (auto simp: UntrackProcess_def FindTrackedProcess_def UntrackProcessObj_tracked Let_def
      getProcess_removeProcess decrementProcessTreeCount_def getProcessTreeCount_def getPipId_def
      split: option.splits)

theorem UntrackProcess_unlinks_iff_witness:
  "fst (UntrackProcess 101 (-1) mismatchSandbox) \<and>
   FindTrackedProcess (snd (UntrackProcess 101 (-1) mismatchSandbox)) 101 = None \<and>
   getProcessTreeCount (snd (UntrackProcess 101 (-1) mismatchSandbox)) 0 = 1 \<and>
   fst (UntrackProcess 101 42 mismatchSandbox) \<and>
   \<not> fst (UntrackProcess 101 43 mismatchSandbox) \<and>
   snd (UntrackProcess 101 43 mismatchSandbox) = mismatchSandbox \<and>
   snd (UntrackProcess 555 (-1) mismatchSandbox) = mismatchSandbox"
proof -
  have tr: "FindTrackedProcess mismatchSandbox 101 = Some 0" "FindTrackedProcess mismatchSandbox 555 = None"
    by (simp_all add: mismatchSandbox_def FindTrackedProcess_def getProcess_def)
  have ids: "getPipId mismatchSandbox 0 = 42" "getProcessTreeCount mismatchSandbox 0 = 2"
    by (simp_all add: mismatchSandbox_def getPipId_def getProcessTreeCount_def)
  from UntrackProcess_unlinks_iff[of 101 "-1" mismatchSandbox]
       UntrackProcess_unlinks_iff[of 101 42 mismatchSandbox]
       UntrackProcess_unlinks_iff[of 101 43 mismatchSandbox]
       UntrackProcess_unlinks_iff[of 555 "-1" mismatchSandbox]
  show ?thesis by (simp add: tr ids)
qed

text \<open>
  Claim C5. When the pid of the new root already has a tracked entry,
  \<open>TrackRootProcess\<close> untracks that entry first and inserts the new root into the
  resulting state: afterwards the pid maps to the new root, the other mappings are
  kept, the count of the stale object is one lower, and tree completion has been
  reported for the stale object exactly if that brought its count to zero. The result
  is what the insertion returned.
\<close>

theorem TrackRootProcess_collision:
  assumes "FindTrackedProcess s (getProcessId s process) = Some existing"
  shows "TrackRootProcess process s =
           insertProcess process (UntrackProcessObj (getProcessId s process) existing s) \<and>
         fst (TrackRootProcess process s) =
           fst (insert_entry (getProcessId s process) process
                  (snd (removeProcess (getProcessId s process) (trackedProcesses s)))) \<and>
         FindTrackedProcess (snd (TrackRootProcess process s)) (getProcessId s process) = Some process \<and>
         (\<forall>k. k \<noteq> getProcessId s process \<longrightarrow>
            FindTrackedProcess (snd (TrackRootProcess process s)) k = FindTrackedProcess s k) \<and>
         (\<forall>q. objects (snd (TrackRootProcess process s)) q =
            (if q = existing
             then (objects s existing)\<lparr>processTreeCount := processTreeCount (objects s existing) - 1\<rparr>
             else objects s q)) \<and>
         events (snd (TrackRootProcess process s)) =
           events s @ (if getProcessTreeCount s existing = 1 then [TreeCompleted existing] else [])"
proof -
  define pid where "pid = getProcessId s process"
  define s1 where "s1 = UntrackProcessObj pid existing s"
  have tr: "getProcess (trackedProcesses s) pid = Some existing"
    using assms by (simp add: FindTrackedProcess_def pid_def)
  have seq: "TrackRootProcess process s = insertProcess process s1"
    by (simp add: TrackRootProcess_def Let_def tr pid_def[symmetric] s1_def)
  have look1: "\<And>k. getProcess (trackedProcesses s1) k = (if k = pid then None else getProcess (trackedProcesses s) k)"
    by (simp add: s1_def UntrackProcessObj_tracked[OF tr] Let_def decrementProcessTreeCount_def
        getProcess_removeProcess)
  have tp1: "trackedProcesses s1 = snd (removeProcess pid (trackedProcesses s))"
    by (simp add: s1_def UntrackProcessObj_tracked[OF tr] Let_def decrementProcessTreeCount_def)
  have obj1: "\<And>q. objects s1 q =
            (if q = existing
             then (objects s existing)\<lparr>processTreeCount := processTreeCount (objects s existing) - 1\<rparr>
             else objects s q)"
    by (simp add: s1_def UntrackProcessObj_tracked[OF tr] Let_def decrementProcessTreeCount_def)
  have ev1: "events s1 = events s @ (if getProcessTreeCount s existing = 1 then [TreeCompleted existing] else [])"
    by (simp add: s1_def UntrackProcessObj_tracked[OF tr] Let_def decrementProcessTreeCount_def
        getProcessTreeCount_def)
  have pid1: "getProcessId s1 process = pid"
    by (simp add: getProcessId_def obj1 pid_def)
  have ins: "insertProcess process s1 =
               (fst (insert_entry pid process (trackedProcesses s1)),
                s1\<lparr>trackedProcesses := snd (insert_entry pid process (trackedProcesses s1))\<rparr>)"
    by (simp add: insertProcess_def pid1 split: prod.splits)
  have "TrackRootProcess process s = insertProcess process (UntrackProcessObj pid existing s)"
    using seq by (simp add: s1_def)
  moreover have "fst (TrackRootProcess process s) =
           fst (insert_entry pid process (snd (removeProcess pid (trackedProcesses s))))"
    by (simp add: seq ins tp1)
  moreover have "FindTrackedProcess (snd (TrackRootProcess process s)) pid = Some process"
    by (simp add: seq ins FindTrackedProcess_def getProcess_insert_entry)
  moreover have "\<forall>k. k \<noteq> pid \<longrightarrow>
            FindTrackedProcess (snd (TrackRootProcess process s)) k = FindTrackedProcess s k"
    by (simp add: seq ins FindTrackedProcess_def getProcess_insert_entry look1)
  moreover have "\<forall>q. objects (snd (TrackRootProcess process s)) q =
            (if q = existing
             then (objects s existing)\<lparr>processTreeCount := processTreeCount (objects s existing) - 1\<rparr>
             else objects s q)"
    by (simp add: seq ins obj1)
  moreover have "events (snd (TrackRootProcess process s)) =
           events s @ (if getProcessTreeCount s existing = 1 then [TreeCompleted existing] else [])"
    by (simp add: seq ins ev1)
  ultimately show ?thesis unfolding pid_def by blast
qed

theorem TrackRootProcess_collision_witness:
  "fst (TrackRootProcess 1 (snd (TrackRootProcess 0 (exampleSandbox 1)))) \<and>
   FindTrackedProcess (snd (TrackRootProcess 1 (snd (TrackRootProcess 0 (exampleSandbox 1))))) 100 = Some 1 \<and>
   getProcessTreeCount (snd (TrackRootProcess 1 (snd (TrackRootProcess 0 (exampleSandbox 1))))) 0 = 0 \<and>
   events (snd (TrackRootProcess 1 (snd (TrackRootProcess 0 (exampleSandbox 1))))) = [TreeCompleted 0]"
proof -
  define s where "s = snd (TrackRootProcess 0 (exampleSandbox 1))"
  have s: "s = \<lparr>trackedProcesses = [(100, 0)], objects = exampleObjects 1, reportQueues = [(7, 1)], events = []\<rparr>"
    by (simp add: s_def exampleSandbox_def exampleObjects_def TrackRootProcess_def getProcessId_def
        getProcess_def insertProcess_def insert_entry_def Let_def)
  have pid: "getProcessId s 1 = 100" unfolding getProcessId_def by (simp add: s exampleObjects_def)
  have tr: "FindTrackedProcess s (getProcessId s 1) = Some 0"
    unfolding pid FindTrackedProcess_def getProcess_def by (simp add: s)
  have c: "getProcessTreeCount s 0 = 1" "processTreeCount (objects s 0) = 1"
    unfolding getProcessTreeCount_def by (simp_all add: s exampleObjects_def)
  have ev: "events s = []" by (simp add: s)
  from TrackRootProcess_collision[OF tr, THEN conjunct2]
  show ?thesis
    unfolding s_def[symmetric]
    by (simp add: pid c ev insert_entry_def getProcessTreeCount_def del: One_nat_def)
qed

section \<open>Properties of the trie\<close>

subsection \<open>Nodes\<close>

lemma sum_list_map_update:
  fixes f :: "'a \<Rightarrow> nat"
  assumes "i < length xs"
  shows "sum_list (map f (xs[i := y])) + f (xs ! i) = sum_list (map f xs) + f y"
  using assms
proof (induction xs arbitrary: i)
  case Nil then show ?case by simp
next
  case (Cons x xs)
  then show ?case by (cases i) (auto simp: algebra_simps)
qed

lemma sentinels_node: "sentinels n =
     (case node_record n of None \<Rightarrow> 0 | Some _ \<Rightarrow> 1) +
     sum_list (map (\<lambda>c. case c of None \<Rightarrow> 0 | Some n \<Rightarrow> sentinels n) (node_children n))"
  by (cases n) simp

lemma wellFormed_node: "wellFormed f n =
     (length (node_children n) = f \<and>
      list_all (\<lambda>c. case c of None \<Rightarrow> True | Some n \<Rightarrow> wellFormed f n) (node_children n))"
  by (cases n) simp

lemma sentinels_create: "sentinels (create k) = 0"
  by (simp add: create_def sum_list_replicate)

lemma wellFormed_create: "wellFormed f (create f)"
  by (simp add: create_def list_all_iff)

lemma recordAt_create: "recordAt (create k) q = None"
  by (cases q) (auto simp: recordAt_def create_def)

lemma recordAt_Nil: "recordAt n [] = node_record n"
  by (simp add: recordAt_def)

lemma recordAt_Cons: "recordAt n (i # q) =
   (if i < length (node_children n) then (case node_children n ! i of None \<Rightarrow> None | Some c \<Rightarrow> recordAt c q) else None)"
  by (simp add: recordAt_def split: option.splits)

lemma wellFormed_update:
  assumes "wellFormed f n" "wellFormed f c" "i < length (node_children n)"
  shows "wellFormed f (Node r ((node_children n)[i := Some c]))"
  using assms
  by (auto simp: wellFormed_node[of f n] list_all_iff dest!: set_update_subset_insert[THEN subsetD])

lemma wellFormed_child:
  assumes "wellFormed f n" "i < length (node_children n)" "node_children n ! i = Some c"
  shows "wellFormed f c"
  using assms
  by (auto simp: wellFormed_node[of f n] list_all_length split: option.splits)

lemma sentinels_update:
  assumes "i < length (node_children n)"
  shows "sentinels (Node (node_record n) ((node_children n)[i := Some c])) +
           (case node_children n ! i of None \<Rightarrow> 0 | Some x \<Rightarrow> sentinels x) =
         sentinels n + sentinels c"
  using sum_list_map_update[OF assms, of "\<lambda>c. case c of None \<Rightarrow> 0 | Some n \<Rightarrow> sentinels n" "Some c"]
  by (simp add: sentinels_node[of n])


lemma findNode_Cons:
  "findNode f (idx # rest) n =
     (if idx < 0 \<or> int (length (node_children n)) \<le> idx then (None, n)
      else (map_option ((#) (nat idx)) (fst (findNode f rest (childOrNew f n (nat idx)))),
            Node (node_record n)
                 ((node_children n)[nat idx := Some (snd (findNode f rest (childOrNew f n (nat idx))))])))"
  by (auto simp: ensureChildNodeExists_def childOrNew_def split: option.splits prod.splits)

lemma sentinels_childOrNew:
  "sentinels (childOrNew f n i) = (case node_children n ! i of None \<Rightarrow> 0 | Some x \<Rightarrow> sentinels x)"
  by (simp add: childOrNew_def sentinels_create split: option.splits)

lemma recordAt_childOrNew:
  "recordAt (childOrNew f n i) q = (case node_children n ! i of None \<Rightarrow> None | Some c \<Rightarrow> recordAt c q)"
  by (simp add: childOrNew_def recordAt_create split: option.splits)

lemma wellFormed_childOrNew:
  assumes "wellFormed f n" "i < length (node_children n)"
  shows "wellFormed f (childOrNew f n i)"
  using assms wellFormed_child[OF assms(1,2)]
  by (auto simp: childOrNew_def wellFormed_create split: option.splits)

lemma findNode_sentinels: "sentinels (snd (findNode f idxs n)) = sentinels n"
proof (induction idxs arbitrary: n)
  case Nil
  then show ?case by simp
next
  case (Cons idx rest)
  show ?case
  proof (cases "idx < 0 \<or> int (length (node_children n)) \<le> idx")
    case True
    then show ?thesis by (simp add: findNode_Cons del: findNode.simps)
  next
    case False
    then have i: "nat idx < length (node_children n)" by auto
    let ?c' = "snd (findNode f rest (childOrNew f n (nat idx)))"
    have "sentinels ?c' = (case node_children n ! nat idx of None \<Rightarrow> 0 | Some x \<Rightarrow> sentinels x)"
      by (simp add: Cons.IH sentinels_childOrNew)
    with sentinels_update[OF i, of ?c'] False show ?thesis
      by (simp add: findNode_Cons del: findNode.simps)
  qed
qed

lemma findNode_recordAt: "recordAt (snd (findNode f idxs n)) q = recordAt n q"
proof (induction idxs arbitrary: n q)
  case Nil
  then show ?case by simp
next
  case (Cons idx rest)
  show ?case
  proof (cases "idx < 0 \<or> int (length (node_children n)) \<le> idx")
    case True
    then show ?thesis by (simp add: findNode_Cons del: findNode.simps)
  next
    case False
    then have i: "nat idx < length (node_children n)" by auto
    show ?thesis
    proof (cases q)
      case Nil
      then show ?thesis using False by (simp add: findNode_Cons recordAt_Nil del: findNode.simps)
    next
      case (Cons j q')
      then show ?thesis using False i
        by (auto simp: findNode_Cons recordAt_Cons Cons.IH recordAt_childOrNew nth_list_update
            simp del: findNode.simps split: option.splits)
    qed
  qed
qed

lemma findNode_wellFormed:
  assumes "wellFormed f n"
  shows "wellFormed f (snd (findNode f idxs n))"
  using assms
proof (induction idxs arbitrary: n)
  case Nil
  then show ?case by simp
next
  case (Cons idx rest)
  show ?case
  proof (cases "idx < 0 \<or> int (length (node_children n)) \<le> idx")
    case True
    then show ?thesis using Cons.prems by (simp add: findNode_Cons del: findNode.simps)
  next
    case False
    then have i: "nat idx < length (node_children n)" by auto
    have "wellFormed f (snd (findNode f rest (childOrNew f n (nat idx))))"
      by (rule Cons.IH[OF wellFormed_childOrNew[OF Cons.prems i]])
    from wellFormed_update[OF Cons.prems this i] False show ?thesis
      by (simp add: findNode_Cons del: findNode.simps)
  qed
qed

lemma findNode_path:
  assumes "fst (findNode f idxs n) = Some p"
  shows "p = map nat idxs"
  using assms
proof (induction idxs arbitrary: n p)
  case Nil
  then show ?case by simp
next
  case (Cons idx rest)
  then show ?case
    by (auto simp: findNode_Cons simp del: findNode.simps split: if_splits)
qed

lemma findNode_succeeds:
  assumes "wellFormed f n"
  shows "(fst (findNode f idxs n) \<noteq> None) = (\<forall>i \<in> set idxs. 0 \<le> i \<and> i < int f)"
  using assms
proof (induction idxs arbitrary: n)
  case Nil
  then show ?case by simp
next
  case (Cons idx rest)
  have len: "length (node_children n) = f" using Cons.prems by (simp add: wellFormed_node[of f n])
  show ?case
  proof (cases "idx < 0 \<or> int f \<le> idx")
    case True
    then show ?thesis using len by (auto simp: findNode_Cons simp del: findNode.simps)
  next
    case False
    then have i: "nat idx < length (node_children n)" using len by auto
    note IH = Cons.IH[OF wellFormed_childOrNew[OF Cons.prems i]]
    show ?thesis using False len IH
      by (auto simp: findNode_Cons simp del: findNode.simps)
  qed
qed

lemma findNode_valid:
  assumes "fst (findNode f idxs n) = Some p"
  shows "nodeAt (snd (findNode f idxs n)) p \<noteq> None"
  using assms
proof (induction idxs arbitrary: n p)
  case Nil
  then show ?case by simp
next
  case (Cons idx rest)
  then show ?case
    by (auto simp: findNode_Cons simp del: findNode.simps split: if_splits)
qed


lemma findNode_nonneg:
  assumes "fst (findNode f idxs n) = Some p"
  shows "\<forall>i \<in> set idxs. 0 \<le> i"
  using assms
proof (induction idxs arbitrary: n p)
  case Nil
  then show ?case by simp
next
  case (Cons idx rest)
  then show ?case
    by (auto simp: findNode_Cons simp del: findNode.simps split: if_splits)
qed

lemma findNode_existing:
  assumes "nodeAt n (map nat idxs) \<noteq> None" "\<forall>i \<in> set idxs. 0 \<le> i"
  shows "findNode f idxs n = (Some (map nat idxs), n)"
  using assms
proof (induction idxs arbitrary: n)
  case Nil
  then show ?case by simp
next
  case (Cons idx rest)
  from Cons.prems obtain c where i: "nat idx < length (node_children n)"
    and c: "node_children n ! nat idx = Some c" and rest: "nodeAt c (map nat rest) \<noteq> None"
    by (auto split: if_splits option.splits)
  have nn: "0 \<le> idx" "\<forall>i \<in> set rest. 0 \<le> i" using Cons.prems by simp_all
  have ch: "childOrNew f n (nat idx) = c" by (simp add: childOrNew_def c)
  have IH: "findNode f rest c = (Some (map nat rest), c)" by (rule Cons.IH[OF rest nn(2)])
  have upd: "(node_children n)[nat idx := Some c] = node_children n"
    using c by (metis list_update_id)
  show ?case using i nn(1)
    by (simp add: findNode_Cons ch IH upd del: findNode.simps)
qed

lemma setRecord_recordAt:
  assumes "nodeAt n p \<noteq> None"
  shows "recordAt (setRecord p r n) q = (if q = p then r else recordAt n q)"
  using assms
proof (induction p arbitrary: n q)
  case Nil
  then show ?case by (cases q) (simp_all add: recordAt_Nil recordAt_Cons)
next
  case (Cons i p)
  from Cons.prems obtain c where i: "i < length (node_children n)"
    and c: "node_children n ! i = Some c" and rest: "nodeAt c p \<noteq> None"
    by (auto split: if_splits option.splits)
  show ?case
  proof (cases q)
    case Nil
    then show ?thesis using i c by (simp add: recordAt_Nil)
  next
    case (Cons j q')
    then show ?thesis using i c Cons.IH[OF rest, of q']
      by (auto simp: recordAt_Cons nth_list_update)
  qed
qed

lemma setRecord_sentinels:
  assumes "nodeAt n p \<noteq> None"
  shows "sentinels (setRecord p r n) + (case recordAt n p of None \<Rightarrow> 0 | Some _ \<Rightarrow> 1) =
         sentinels n + (case r of None \<Rightarrow> 0 | Some _ \<Rightarrow> 1)"
  using assms
proof (induction p arbitrary: n)
  case Nil
  then show ?case by (simp add: recordAt_Nil sentinels_node[of n])
next
  case (Cons i p)
  from Cons.prems obtain c where i: "i < length (node_children n)"
    and c: "node_children n ! i = Some c" and rest: "nodeAt c p \<noteq> None"
    by (auto split: if_splits option.splits)
  from sentinels_update[OF i, of "setRecord p r c"] Cons.IH[OF rest] i c
  show ?case by (simp add: recordAt_Cons)
qed

lemma setRecord_wellFormed:
  assumes "wellFormed f n"
  shows "wellFormed f (setRecord p r n)"
  using assms
proof (induction p arbitrary: n)
  case Nil
  then show ?case by (simp add: wellFormed_node[of f n])
next
  case (Cons i p)
  show ?case
  proof (cases "i < length (node_children n)")
    case False
    then show ?thesis using Cons.prems by simp
  next
    case True
    show ?thesis
    proof (cases "node_children n ! i")
      case None
      then show ?thesis using Cons.prems by simp
    next
      case (Some c)
      have "wellFormed f (setRecord p r c)"
        by (rule Cons.IH[OF wellFormed_child[OF Cons.prems True Some]])
      from wellFormed_update[OF Cons.prems this True] True Some show ?thesis by simp
    qed
  qed
qed

lemma setRecord_nodeAt:
  assumes "nodeAt n q \<noteq> None"
  shows "nodeAt (setRecord p r n) q \<noteq> None"
  using assms
proof (induction p arbitrary: n q)
  case Nil
  then show ?case by (cases q) (auto split: if_splits)
next
  case (Cons i p)
  show ?case
  proof (cases q)
    case Nil
    then show ?thesis by simp
  next
    case (Cons j q')
    from Cons.prems Cons obtain c where j: "j < length (node_children n)"
      and c: "node_children n ! j = Some c" and rest: "nodeAt c q' \<noteq> None"
      by (auto split: if_splits option.splits)
    show ?thesis
    proof (cases "i < length (node_children n)")
      case False
      then show ?thesis using Cons.prems by simp
    next
      case True
      show ?thesis
      proof (cases "node_children n ! i")
        case None
        then show ?thesis using Cons.prems by simp
      next
        case (Some d)
        show ?thesis
        proof (cases "j = i")
          case True
          then have "d = c" using Some c by simp
          with Cons.IH[OF rest] True j c Cons show ?thesis by simp
        next
          case False
          with j c rest Some True Cons show ?thesis by simp
        qed
      qed
    qed
  qed
qed

lemma findFrom_fst: "fst (findFrom idxs t) = fst (findNode (createNodeFanout (kind t)) idxs (root t))"
  by (simp add: findFrom_def case_prod_beta)

lemma findFrom_snd: "snd (findFrom idxs t) = t\<lparr>root := snd (findNode (createNodeFanout (kind t)) idxs (root t))\<rparr>"
  by (simp add: findFrom_def case_prod_beta)

lemma findFrom_sameEntries: "sameEntries t (snd (findFrom idxs t))"
  by (simp add: sameEntries_def findFrom_snd findNode_sentinels findNode_recordAt)

lemma findFrom_Some:
  assumes "fst (findFrom idxs t) = Some p"
  shows "p = map nat idxs \<and> nodeAt (root (snd (findFrom idxs t))) p \<noteq> None \<and> (\<forall>i \<in> set idxs. 0 \<le> i)"
proof -
  let ?f = "createNodeFanout (kind t)"
  have f: "fst (findNode ?f idxs (root t)) = Some p"
    using assms by (simp add: findFrom_fst)
  show ?thesis
    using findNode_path[OF f] findNode_valid[OF f] findNode_nonneg[OF f] by (simp add: findFrom_snd)
qed

lemma findFrom_shapeInv:
  assumes "shapeInv t"
  shows "shapeInv (snd (findFrom idxs t))"
  using assms findNode_wellFormed[of "createNodeFanout (kind t)" "root t" idxs]
  by (simp add: shapeInv_def findFrom_snd)

lemma findFrom_succeeds:
  assumes "shapeInv t"
  shows "(fst (findFrom idxs t) \<noteq> None) = (\<forall>i \<in> set idxs. 0 \<le> i \<and> i < int (createNodeFanout (kind t)))"
  using findNode_succeeds[of "createNodeFanout (kind t)" "root t" idxs] assms
  by (simp add: shapeInv_def findFrom_fst)

lemma findFrom_existing:
  assumes "nodeAt (root t) (map nat idxs) \<noteq> None" "\<forall>i \<in> set idxs. 0 \<le> i"
  shows "findFrom idxs t = (Some (map nat idxs), t)"
  by (simp add: findFrom_def findNode_existing[OF assms])

subsection \<open>Node-level operations on a pointer into the trie\<close>

lemma sameEntries_refl: "sameEntries t t"
  by (simp add: sameEntries_def)

lemma sameEntries_trans: "sameEntries t t1 \<Longrightarrow> sameEntries t1 t2 \<Longrightarrow> sameEntries t t2"
  by (simp add: sameEntries_def)

lemma accounted_after_find: "sameEntries t t1 \<Longrightarrow> accounted t1 res t' \<Longrightarrow> accounted t res t'"
  by (simp add: sameEntries_def accounted_def)

lemma accounted_sameEntries: "sameEntries t t' \<Longrightarrow> countChange res = 0 \<Longrightarrow> accounted t res t'"
  by (simp add: sameEntries_def accounted_def)

lemma accounted_counterInv:
  assumes "counterInv t" "accounted t res t'"
  shows "counterInv t'"
proof -
  have "trieSize t' = of_int (int (sentinels (root t))) + of_int (countChange res)"
    using assms by (simp add: counterInv_def accounted_def)
  also have "\<dots> = of_int (int (sentinels (root t')))"
    using assms(2) by (simp add: accounted_def)
  finally show ?thesis by (simp add: counterInv_def)
qed

lemma insert_node_accounted:
  assumes "\<And>p. node = Some p \<Longrightarrow> nodeAt (root t) p \<noteq> None"
  shows "accounted t (Some (fst (insert_node node val t))) (snd (insert_node node val t))"
proof (cases "\<exists>p v. node = Some p \<and> val = Some v \<and> recordAt (root t) p = None")
  case True
  then obtain p v where nv: "node = Some p" "val = Some v" "recordAt (root t) p = None" by blast
  have "sentinels (setRecord p (Some v) (root t)) = Suc (sentinels (root t))"
    using setRecord_sentinels[OF assms[OF nv(1)], of "Some v"] nv(3) by simp
  then show ?thesis
    by (simp add: nv insert_node_def accounted_def countChange_def triggerOnChange_def)
next
  case False
  then show ?thesis
    by (auto simp: insert_node_def accounted_def countChange_def split: option.splits)
qed

lemma replace_node_accounted:
  assumes "\<And>p. node = Some p \<Longrightarrow> nodeAt (root t) p \<noteq> None"
  shows "accounted t (Some (fst (replace_node node val t))) (snd (replace_node node val t))"
proof (cases "\<exists>p v. node = Some p \<and> val = Some v")
  case True
  then obtain p v where nv: "node = Some p" "val = Some v" by blast
  note S = setRecord_sentinels[OF assms[OF nv(1)], of "Some v"]
  show ?thesis
  proof (cases "recordAt (root t) p")
    case None
    then have "sentinels (setRecord p (Some v) (root t)) = Suc (sentinels (root t))" using S by simp
    then show ?thesis
      by (simp add: nv None replace_node_def accounted_def countChange_def triggerOnChange_def)
  next
    case (Some x)
    then have "sentinels (setRecord p (Some v) (root t)) = sentinels (root t)" using S by simp
    then show ?thesis
      by (simp add: nv Some replace_node_def accounted_def countChange_def)
  qed
next
  case False
  then show ?thesis
    by (auto simp: replace_node_def accounted_def countChange_def split: option.splits)
qed

lemma remove_node_accounted:
  assumes "\<And>p. node = Some p \<Longrightarrow> nodeAt (root t) p \<noteq> None"
  shows "accounted t (Some (fst (remove_node node t))) (snd (remove_node node t))"
proof (cases node)
  case None
  then show ?thesis by (simp add: remove_node_def accounted_def countChange_def)
next
  case (Some p)
  note S = setRecord_sentinels[OF assms[OF Some], of None]
  show ?thesis
  proof (cases "recordAt (root t) p")
    case None
    then show ?thesis by (simp add: Some remove_node_def accounted_def countChange_def)
  next
    case (Some x)
    then have "int (sentinels (setRecord p None (root t))) = int (sentinels (root t)) - 1" using S by simp
    then show ?thesis
      by (simp add: \<open>node = Some p\<close> Some remove_node_def accounted_def countChange_def triggerOnChange_def)
  qed
qed

lemma getOrAdd_node_accounted:
  assumes "\<And>p. node = Some p \<Longrightarrow> nodeAt (root t) p \<noteq> None"
  shows "accounted t (Some (snd (fst (getOrAdd_node node a f t)))) (snd (getOrAdd_node node a f t))"
proof (cases node)
  case None
  then show ?thesis by (simp add: getOrAdd_node_def accounted_def countChange_def)
next
  case (Some p)
  note S = setRecord_sentinels[OF assms[OF Some], of "Some (f a)"]
  show ?thesis
  proof (cases "recordAt (root t) p")
    case None
    then have "sentinels (setRecord p (Some (f a)) (root t)) = Suc (sentinels (root t))" using S by simp
    then show ?thesis
      by (simp add: Some None getOrAdd_node_def makeSentinel_def accounted_def countChange_def triggerOnChange_def)
  next
    case (Some x)
    then show ?thesis
      by (simp add: \<open>node = Some p\<close> getOrAdd_node_def makeSentinel_def accounted_def countChange_def)
  qed
qed


subsection \<open>The public operations, through the traversal\<close>

lemma nodeop_shape:
  "shapeInv t \<Longrightarrow> shapeInv (snd (insert_node node val t))"
  "shapeInv t \<Longrightarrow> shapeInv (snd (replace_node node val t))"
  "shapeInv t \<Longrightarrow> shapeInv (snd (remove_node node t))"
  "shapeInv t \<Longrightarrow> shapeInv (snd (getOrAdd_node node a f t))"
  by (auto simp: shapeInv_def insert_node_def replace_node_def remove_node_def getOrAdd_node_def
      makeSentinel_def triggerOnChange_def setRecord_wellFormed split: option.splits)

lemma findFrom_valid:
  "fst (findFrom idxs t) = Some p \<Longrightarrow> nodeAt (root (snd (findFrom idxs t))) p \<noteq> None"
  using findFrom_Some by blast

lemma path_ops_unfold:
  "get_path key t = (if kind t \<noteq> kPathTrie then (None, t)
     else (get_node (fst (findFrom (map pathIndex (cstr key)) t)) (snd (findFrom (map pathIndex (cstr key)) t)),
           snd (findFrom (map pathIndex (cstr key)) t)))"
  "getOrAdd_path key a f t = (if kind t \<noteq> kPathTrie then ((None, None), t)
     else ((fst (fst (getOrAdd_node (fst (findFrom (map pathIndex (cstr key)) t)) a f (snd (findFrom (map pathIndex (cstr key)) t)))),
            Some (snd (fst (getOrAdd_node (fst (findFrom (map pathIndex (cstr key)) t)) a f (snd (findFrom (map pathIndex (cstr key)) t)))))),
           snd (getOrAdd_node (fst (findFrom (map pathIndex (cstr key)) t)) a f (snd (findFrom (map pathIndex (cstr key)) t)))))"
  "insert_path key val t = (if kind t \<noteq> kPathTrie then (kTrieResultFailure, t)
     else insert_node (fst (findFrom (map pathIndex (cstr key)) t)) val (snd (findFrom (map pathIndex (cstr key)) t)))"
  "replace_path key val t = (if kind t \<noteq> kPathTrie then (kTrieResultFailure, t)
     else replace_node (fst (findFrom (map pathIndex (cstr key)) t)) val (snd (findFrom (map pathIndex (cstr key)) t)))"
  "remove_path key t = (if kind t \<noteq> kPathTrie then (kTrieResultFailure, t)
     else remove_node (fst (findFrom (map pathIndex (cstr key)) t)) (snd (findFrom (map pathIndex (cstr key)) t)))"
  by (simp_all add: get_path_def getOrAdd_path_def insert_path_def replace_path_def remove_path_def
      findPathNode_def case_prod_beta)

lemma uint_ops_unfold:
  "get_uint key t = (if kind t \<noteq> kUintTrie then (None, t)
     else (get_node (fst (findFrom (map int (uintDigits (unat key))) t)) (snd (findFrom (map int (uintDigits (unat key))) t)),
           snd (findFrom (map int (uintDigits (unat key))) t)))"
  "getOrAdd_uint key a f t = (if kind t \<noteq> kUintTrie then ((None, None), t)
     else ((fst (fst (getOrAdd_node (fst (findFrom (map int (uintDigits (unat key))) t)) a f (snd (findFrom (map int (uintDigits (unat key))) t)))),
            Some (snd (fst (getOrAdd_node (fst (findFrom (map int (uintDigits (unat key))) t)) a f (snd (findFrom (map int (uintDigits (unat key))) t)))))),
           snd (getOrAdd_node (fst (findFrom (map int (uintDigits (unat key))) t)) a f (snd (findFrom (map int (uintDigits (unat key))) t)))))"
  "insert_uint key val t = (if kind t \<noteq> kUintTrie then (kTrieResultFailure, t)
     else insert_node (fst (findFrom (map int (uintDigits (unat key))) t)) val (snd (findFrom (map int (uintDigits (unat key))) t)))"
  "replace_uint key val t = (if kind t \<noteq> kUintTrie then (kTrieResultFailure, t)
     else replace_node (fst (findFrom (map int (uintDigits (unat key))) t)) val (snd (findFrom (map int (uintDigits (unat key))) t)))"
  "remove_uint key t = (if kind t \<noteq> kUintTrie then (kTrieResultFailure, t)
     else remove_node (fst (findFrom (map int (uintDigits (unat key))) t)) (snd (findFrom (map int (uintDigits (unat key))) t)))"
  by (simp_all add: get_uint_def getOrAdd_uint_def insert_uint_def replace_uint_def remove_uint_def
      findUintNode_def case_prod_beta)

lemma accounted_refl_None: "accounted t None t" "accounted t (Some kTrieResultFailure) t"
  by (simp_all add: accounted_def countChange_def)

lemma via_find_accounted:
  "accounted t None (snd (findFrom idxs t))"
  "accounted t (Some (fst (insert_node (fst (findFrom idxs t)) val (snd (findFrom idxs t)))))
               (snd (insert_node (fst (findFrom idxs t)) val (snd (findFrom idxs t))))"
  "accounted t (Some (fst (replace_node (fst (findFrom idxs t)) val (snd (findFrom idxs t)))))
               (snd (replace_node (fst (findFrom idxs t)) val (snd (findFrom idxs t))))"
  "accounted t (Some (fst (remove_node (fst (findFrom idxs t)) (snd (findFrom idxs t)))))
               (snd (remove_node (fst (findFrom idxs t)) (snd (findFrom idxs t))))"
  "accounted t (Some (snd (fst (getOrAdd_node (fst (findFrom idxs t)) a f (snd (findFrom idxs t))))))
               (snd (getOrAdd_node (fst (findFrom idxs t)) a f (snd (findFrom idxs t))))"
proof -
  note E = findFrom_sameEntries[of t idxs]
  show "accounted t None (snd (findFrom idxs t))"
    by (rule accounted_sameEntries[OF E]) (simp add: countChange_def)
  show "accounted t (Some (fst (insert_node (fst (findFrom idxs t)) val (snd (findFrom idxs t)))))
               (snd (insert_node (fst (findFrom idxs t)) val (snd (findFrom idxs t))))"
    by (rule accounted_after_find[OF E insert_node_accounted]) (rule findFrom_valid)
  show "accounted t (Some (fst (replace_node (fst (findFrom idxs t)) val (snd (findFrom idxs t)))))
               (snd (replace_node (fst (findFrom idxs t)) val (snd (findFrom idxs t))))"
    by (rule accounted_after_find[OF E replace_node_accounted]) (rule findFrom_valid)
  show "accounted t (Some (fst (remove_node (fst (findFrom idxs t)) (snd (findFrom idxs t)))))
               (snd (remove_node (fst (findFrom idxs t)) (snd (findFrom idxs t))))"
    by (rule accounted_after_find[OF E remove_node_accounted]) (rule findFrom_valid)
  show "accounted t (Some (snd (fst (getOrAdd_node (fst (findFrom idxs t)) a f (snd (findFrom idxs t))))))
               (snd (getOrAdd_node (fst (findFrom idxs t)) a f (snd (findFrom idxs t))))"
    by (rule accounted_after_find[OF E getOrAdd_node_accounted]) (rule findFrom_valid)
qed

lemma applyOp_accounted: "accounted t (fst (applyOp op t)) (snd (applyOp op t))"
proof (cases op)
  case (OpGet k)
  then show ?thesis
    by (cases k) (simp_all add: path_ops_unfold uint_ops_unfold via_find_accounted accounted_refl_None)
next
  case (OpGetOrAdd k a f)
  then show ?thesis
    by (cases k) (simp_all add: path_ops_unfold uint_ops_unfold via_find_accounted accounted_refl_None)
next
  case (OpReplace k v)
  then show ?thesis
    by (cases k) (simp_all add: path_ops_unfold uint_ops_unfold via_find_accounted accounted_refl_None)
next
  case (OpInsert k v)
  then show ?thesis
    by (cases k) (simp_all add: path_ops_unfold uint_ops_unfold via_find_accounted accounted_refl_None)
next
  case (OpRemove k)
  then show ?thesis
    by (cases k) (simp_all add: path_ops_unfold uint_ops_unfold via_find_accounted accounted_refl_None)
qed

lemma applyOp_shapeInv:
  assumes "shapeInv t"
  shows "shapeInv (snd (applyOp op t))"
proof -
  note S = findFrom_shapeInv[OF assms]
  show ?thesis
  proof (cases op)
    case (OpGet k)
    then show ?thesis
      by (cases k) (simp_all add: path_ops_unfold uint_ops_unfold S assms)
  next
    case (OpGetOrAdd k a f)
    then show ?thesis
      by (cases k) (simp_all add: path_ops_unfold uint_ops_unfold nodeop_shape S assms)
  next
    case (OpReplace k v)
    then show ?thesis
      by (cases k) (simp_all add: path_ops_unfold uint_ops_unfold nodeop_shape S assms)
  next
    case (OpInsert k v)
    then show ?thesis
      by (cases k) (simp_all add: path_ops_unfold uint_ops_unfold nodeop_shape S assms)
  next
    case (OpRemove k)
    then show ?thesis
      by (cases k) (simp_all add: path_ops_unfold uint_ops_unfold nodeop_shape S assms)
  qed
qed

lemma createTrie_invs: "counterInv (createTrie k)" "shapeInv (createTrie k)"
  by (simp_all add: counterInv_def shapeInv_def createTrie_def sentinels_create wellFormed_create)

lemma applyOps_counterInv:
  assumes "counterInv t"
  shows "counterInv (applyOps ops t)"
  using assms
proof (induction ops arbitrary: t)
  case Nil
  then show ?case by (simp add: applyOps_def)
next
  case (Cons op ops)
  have "counterInv (snd (applyOp op t))"
    by (rule accounted_counterInv[OF Cons.prems applyOp_accounted])
  from Cons.IH[OF this] show ?case by (simp add: applyOps_def)
qed

lemma applyOps_shapeInv:
  assumes "shapeInv t"
  shows "shapeInv (applyOps ops t)"
  using assms
proof (induction ops arbitrary: t)
  case Nil
  then show ?case by (simp add: applyOps_def)
next
  case (Cons op ops)
  from Cons.IH[OF applyOp_shapeInv[OF Cons.prems]] show ?case by (simp add: applyOps_def)
qed

subsection \<open>The claims about the trie\<close>

text \<open>
  Claim C10. Every path-keyed operation on an integer-keyed trie, and every
  integer-keyed operation on a path-keyed trie, returns \<open>kTrieResultFailure\<close> or null
  and leaves the trie, its counter included, exactly as it was.
\<close>

theorem kind_mismatch_is_noop:
  "(kind t = kUintTrie \<longrightarrow>
      get_path path t = (None, t) \<and>
      getAs_path isT path t = (None, t) \<and>
      getOrAdd_path path factoryArgs factory t = ((None, None), t) \<and>
      insert_path path val t = (kTrieResultFailure, t) \<and>
      replace_path path val t = (kTrieResultFailure, t) \<and>
      remove_path path t = (kTrieResultFailure, t)) \<and>
   (kind t = kPathTrie \<longrightarrow>
      get_uint key t = (None, t) \<and>
      getAs_uint isT key t = (None, t) \<and>
      getOrAdd_uint key factoryArgs factory t = ((None, None), t) \<and>
      insert_uint key val t = (kTrieResultFailure, t) \<and>
      replace_uint key val t = (kTrieResultFailure, t) \<and>
      remove_uint key t = (kTrieResultFailure, t))"
  by (simp add: get_path_def getAs_path_def getOrAdd_path_def insert_path_def replace_path_def
      remove_path_def get_uint_def getAs_uint_def getOrAdd_uint_def insert_uint_def
      replace_uint_def remove_uint_def)

theorem kind_mismatch_is_noop_witness:
  "insert_path ''/a'' (Some (1::nat)) createUintTrie = (kTrieResultFailure, createUintTrie) \<and>
   get_path ''/a'' (createUintTrie :: nat Trie) = (None, createUintTrie) \<and>
   getCount (snd (insert_path ''/a'' (Some (1::nat)) createUintTrie)) = 0 \<and>
   insert_uint 7 (Some (1::nat)) createPathTrie = (kTrieResultFailure, createPathTrie) \<and>
   remove_uint 7 (createPathTrie :: nat Trie) = (kTrieResultFailure, createPathTrie)"
proof -
  have k: "kind (createUintTrie :: nat Trie) = kUintTrie" "kind (createPathTrie :: nat Trie) = kPathTrie"
    by (simp_all add: createUintTrie_def createPathTrie_def createTrie_def)
  have c: "getCount (createUintTrie :: nat Trie) = 0"
    by (simp add: getCount_def createUintTrie_def createTrie_def)
  from kind_mismatch_is_noop[of "createUintTrie :: nat Trie" "''/a''" "\<lambda>_. True" "()" "\<lambda>_. 0" "Some 1" 7]
       kind_mismatch_is_noop[of "createPathTrie :: nat Trie" "''/a''" "\<lambda>_. True" "()" "\<lambda>_. 0" "Some 1" 7]
  show ?thesis by (simp add: k c)
qed

lemmas trie_defs =
  createPathTrie_def createUintTrie_def createTrie_def createNodeFanout_def
  s_pathNodeChildrenCount_def s_uintNodeChildrenCount_def create_def
  get_path_def getOrAdd_path_def insert_path_def replace_path_def remove_path_def
  get_uint_def getOrAdd_uint_def insert_uint_def replace_uint_def remove_uint_def
  findPathNode_def findUintNode_def findFrom_def ensureChildNodeExists_def
  cstr_def toupper_def pathIndex_def get_node_def getOrAdd_node_def makeSentinel_def
  insert_node_def replace_node_def remove_node_def triggerOnChange_def recordAt_def getCount_def


lemma pathIndex_range:
  "addressable c \<Longrightarrow> 0 \<le> pathIndex c \<and> pathIndex c < int s_pathNodeChildrenCount"
  "\<not> addressable c \<Longrightarrow> pathIndex c < 0 \<or> int s_pathNodeChildrenCount \<le> pathIndex c"
  by (auto simp: addressable_def pathIndex_def toupper_def s_pathNodeChildrenCount_def)

lemma findFrom_fails:
  assumes "shapeInv t" "\<exists>i \<in> set idxs. i < 0 \<or> int (createNodeFanout (kind t)) \<le> i"
  shows "fst (findFrom idxs t) = None"
  using findFrom_succeeds[OF assms(1), of idxs] assms(2) by fastforce

lemma findPath_fails:
  assumes "kind t = kPathTrie" "shapeInv t" "\<exists>c \<in> set (cstr key). \<not> addressable c"
  shows "fst (findFrom (map pathIndex (cstr key)) t) = None"
proof (rule findFrom_fails[OF assms(2)])
  from assms(3) obtain c where c: "c \<in> set (cstr key)" "\<not> addressable c" by blast
  have "pathIndex c < 0 \<or> int (createNodeFanout (kind t)) \<le> pathIndex c"
    using pathIndex_range(2)[OF c(2)] by (simp add: assms(1) createNodeFanout_def)
  then show "\<exists>i \<in> set (map pathIndex (cstr key)). i < 0 \<or> int (createNodeFanout (kind t)) \<le> i"
    using c(1) by auto
qed

text \<open>
  Claim C6. On a path-keyed trie, for a key with a byte outside the addressable range
  (32 to 122), \<open>insert\<close>, \<open>replace\<close> and \<open>remove\<close> return \<open>kTrieResultFailure\<close>, \<open>get\<close>,
  \<open>getAs\<close> and \<open>getOrAdd\<close> return null, and the trie holds the same entries afterwards:
  the same record at every index path, the same counter, no callback invoked. (The
  traversal may have created nodes for the bytes before the offending one; they hold no
  record.)
\<close>

theorem unrepresentable_path_key_fails:
  assumes "kind t = kPathTrie" and "shapeInv t" and "\<exists>c \<in> set (cstr key). \<not> addressable c"
  shows "fst (insert_path key val t) = kTrieResultFailure \<and> sameEntries t (snd (insert_path key val t)) \<and>
         fst (replace_path key val t) = kTrieResultFailure \<and> sameEntries t (snd (replace_path key val t)) \<and>
         fst (remove_path key t) = kTrieResultFailure \<and> sameEntries t (snd (remove_path key t)) \<and>
         fst (get_path key t) = None \<and> sameEntries t (snd (get_path key t)) \<and>
         fst (getAs_path isT key t) = None \<and> sameEntries t (snd (getAs_path isT key t)) \<and>
         fst (getOrAdd_path key factoryArgs factory t) = (None, Some kTrieResultFailure) \<and>
         sameEntries t (snd (getOrAdd_path key factoryArgs factory t))"
proof -
  define t1 where "t1 = snd (findFrom (map pathIndex (cstr key)) t)"
  have none: "fst (findFrom (map pathIndex (cstr key)) t) = None"
    by (rule findPath_fails[OF assms])
  have same: "sameEntries t t1"
    unfolding t1_def by (rule findFrom_sameEntries)
  have "insert_path key val t = (kTrieResultFailure, t1)"
    by (simp add: path_ops_unfold(3) assms(1) none t1_def insert_node_def)
  moreover have "replace_path key val t = (kTrieResultFailure, t1)"
    by (simp add: path_ops_unfold(4) assms(1) none t1_def replace_node_def)
  moreover have "remove_path key t = (kTrieResultFailure, t1)"
    by (simp add: path_ops_unfold(5) assms(1) none t1_def remove_node_def)
  moreover have g: "get_path key t = (None, t1)"
    by (simp add: path_ops_unfold(1) assms(1) none t1_def get_node_def)
  moreover have "getAs_path isT key t = (None, t1)"
    by (simp add: getAs_path_def g assms(1) OSDynamicCast_def)
  moreover have "getOrAdd_path key factoryArgs factory t = ((None, Some kTrieResultFailure), t1)"
    by (simp add: path_ops_unfold(2) assms(1) none t1_def getOrAdd_node_def)
  ultimately show ?thesis using same by simp
qed

theorem unrepresentable_path_key_fails_witness:
  "fst (insert_path [CHR 0x01] (Some (5::nat)) createPathTrie) = kTrieResultFailure \<and>
   fst (get_path [CHR 0x01] (createPathTrie :: nat Trie)) = None \<and>
   getCount (snd (insert_path [CHR 0x01] (Some (5::nat)) createPathTrie)) = 0 \<and>
   getCount (snd (get_path [CHR 0x01] (createPathTrie :: nat Trie))) = 0"
proof -
  have k: "kind (createPathTrie :: nat Trie) = kPathTrie" by (simp add: createPathTrie_def createTrie_def)
  have s: "shapeInv (createPathTrie :: nat Trie)" by (simp add: createPathTrie_def createTrie_invs)
  have c: "\<exists>c \<in> set (cstr [CHR 0x01]). \<not> addressable c" by (simp add: cstr_def addressable_def)
  have z: "trieSize (createPathTrie :: nat Trie) = 0" by (simp add: createPathTrie_def createTrie_def)
  from unrepresentable_path_key_fails[OF k s c, of "Some 5" "\<lambda>_. True" "()" "\<lambda>_. 0"]
  show ?thesis by (simp add: sameEntries_def getCount_def z)
qed

lemma counterInv_unat:
  assumes "counterInv t" "sentinels (root t) < 2 ^ 32"
  shows "unat (getCount t) = sentinels (root t)"
  using assms by (simp add: counterInv_def getCount_def unat_of_nat)

lemma replace_existing:
  assumes "get_node (fst (findFrom idxs t)) (snd (findFrom idxs t)) \<noteq> None"
  shows "fst (replace_node (fst (findFrom idxs t)) (Some v) (snd (findFrom idxs t))) = kTrieResultReplaced"
proof -
  from assms obtain p where p: "fst (findFrom idxs t) = Some p"
    and r: "recordAt (root (snd (findFrom idxs t))) p \<noteq> None"
    by (auto simp: get_node_def split: option.splits)
  show ?thesis
    using p r by (auto simp: replace_node_def split: option.splits)
qed

lemma replace_existing_path:
  assumes "fst (get_path key t) \<noteq> None"
  shows "fst (replace_path key (Some v) t) = kTrieResultReplaced"
proof -
  have k: "kind t = kPathTrie" using assms by (auto simp: get_path_def split: if_splits)
  have g: "get_node (fst (findFrom (map pathIndex (cstr key)) t)) (snd (findFrom (map pathIndex (cstr key)) t)) \<noteq> None"
    using assms k by (simp add: path_ops_unfold(1))
  show ?thesis using replace_existing[OF g] k by (simp add: path_ops_unfold(4))
qed

lemma replace_existing_uint:
  assumes "fst (get_uint key t) \<noteq> None"
  shows "fst (replace_uint key (Some v) t) = kTrieResultReplaced"
proof -
  have k: "kind t = kUintTrie" using assms by (auto simp: get_uint_def split: if_splits)
  have g: "get_node (fst (findFrom (map int (uintDigits (unat key))) t)) (snd (findFrom (map int (uintDigits (unat key))) t)) \<noteq> None"
    using assms k by (simp add: uint_ops_unfold(1))
  show ?thesis using replace_existing[OF g] k by (simp add: uint_ops_unfold(4))
qed

text \<open>
  Claim C7, as the operations are documented. The counter equals the number of stored
  values (sentinel nodes reachable from the root), as a 32-bit number: this holds for a
  new trie, is kept by every keyed operation of the public interface (\<open>get\<close>,
  \<open>getOrAdd\<close>, \<open>insert\<close>, \<open>replace\<close>, \<open>remove\<close>, for both kinds of key), hence holds
  after every sequence of them; \<open>getCount\<close> returns the counter, which is the exact
  number while fewer than \<open>2^32\<close> values are stored. Every operation is accounted for by
  its result code: with \<open>kTrieResultInserted\<close> one value more is stored and the counter
  is one higher, with \<open>kTrieResultRemoved\<close> one value less and the counter one lower,
  with any other result both are unchanged; and exactly when the counter changes, a
  registered callback is invoked once, with the old and the new count. \<open>replace\<close> on a
  key that has a value returns \<open>kTrieResultReplaced\<close>, so it leaves the counter
  unchanged there.
\<close>

theorem counter_tracks_stored_values:
  fixes t :: "'v Trie" and op :: "('a, 'v) TrieOp" and ops :: "('a, 'v) TrieOp list"
  shows
  "counterInv (createTrie k :: 'v Trie) \<and>
   accounted t (fst (applyOp op t)) (snd (applyOp op t)) \<and>
   (counterInv t \<longrightarrow> counterInv (snd (applyOp op t))) \<and>
   counterInv (applyOps ops (createTrie k :: 'v Trie)) \<and>
   getCount t = trieSize t \<and>
   (counterInv t \<and> sentinels (root t) < 2 ^ 32 \<longrightarrow> unat (getCount t) = sentinels (root t)) \<and>
   (fst (get_path key t) \<noteq> None \<longrightarrow> fst (replace_path key (Some v) t) = kTrieResultReplaced) \<and>
   (fst (get_uint n t) \<noteq> None \<longrightarrow> fst (replace_uint n (Some v) t) = kTrieResultReplaced)"
proof -
  have 1: "counterInv (createTrie k :: 'v Trie)" by (rule createTrie_invs)
  have 2: "accounted t (fst (applyOp op t)) (snd (applyOp op t))" by (rule applyOp_accounted)
  have 3: "counterInv t \<longrightarrow> counterInv (snd (applyOp op t))"
    by (rule impI) (rule accounted_counterInv[OF _ 2])
  have 4: "counterInv (applyOps ops (createTrie k :: 'v Trie))" by (rule applyOps_counterInv[OF 1])
  have 5: "getCount t = trieSize t" by (simp add: getCount_def)
  have 6: "counterInv t \<and> sentinels (root t) < 2 ^ 32 \<longrightarrow> unat (getCount t) = sentinels (root t)"
    by (rule impI) (simp add: counterInv_unat)
  have 7: "fst (get_path key t) \<noteq> None \<longrightarrow> fst (replace_path key (Some v) t) = kTrieResultReplaced"
    by (rule impI) (rule replace_existing_path)
  have 8: "fst (get_uint n t) \<noteq> None \<longrightarrow> fst (replace_uint n (Some v) t) = kTrieResultReplaced"
    by (rule impI) (rule replace_existing_uint)
  show ?thesis by (intro conjI 1 2 3 4 5 6 7 8)
qed

theorem counter_tracks_stored_values_witness:
  "counterInv (snd (applyOp (OpInsert (PathKey ''a'') (Some (1::nat)) :: (unit, nat) TrieOp) createPathTrie)) \<and>
   getCount (snd (applyOp (OpInsert (PathKey ''a'') (Some (1::nat)) :: (unit, nat) TrieOp) createPathTrie)) = 1 \<and>
   sentinels (root (snd (applyOp (OpInsert (PathKey ''a'') (Some (1::nat)) :: (unit, nat) TrieOp) createPathTrie))) = 1 \<and>
   unat (getCount (snd (applyOp (OpInsert (PathKey ''a'') (Some (1::nat)) :: (unit, nat) TrieOp) createPathTrie))) =
     sentinels (root (snd (applyOp (OpInsert (PathKey ''a'') (Some (1::nat)) :: (unit, nat) TrieOp) createPathTrie))) \<and>
   fst (replace_path ''a'' (Some 2) (snd (insert_path ''a'' (Some (1::nat)) createPathTrie))) = kTrieResultReplaced \<and>
   fst (replace_uint 42 (Some 2) (snd (insert_uint 42 (Some (1::nat)) createUintTrie))) = kTrieResultReplaced"
proof -
  define op :: "(unit, nat) TrieOp" where "op = OpInsert (PathKey ''a'') (Some 1)"
  define t :: "nat Trie" where "t = createPathTrie"
  define t' where "t' = snd (applyOp op t)"
  define t1 where "t1 = snd (insert_path ''a'' (Some (1::nat)) createPathTrie)"
  define tu where "tu = snd (insert_uint 42 (Some (1::nat)) createUintTrie)"
  have res: "fst (applyOp op t) = Some kTrieResultInserted"
    unfolding op_def t_def by code_simp
  have z: "trieSize t = 0" "sentinels (root t) = 0"
    unfolding t_def by code_simp+
  have g: "fst (get_path ''a'' t1) \<noteq> None"
    unfolding t1_def by code_simp
  have gu: "fst (get_uint 42 tu) \<noteq> None"
    unfolding tu_def by code_simp
  note T = counter_tracks_stored_values[of kPathTrie t op "[]" "''a''" 2 0]
  note T' = counter_tracks_stored_values[of kPathTrie t' op "[]" "''a''" 2 0]
  note R = counter_tracks_stored_values[of kPathTrie t1 op "[]" "''a''" 2 0]
  note U = counter_tracks_stored_values[of kUintTrie tu op "[]" "''a''" 2 42]
  have inv0: "counterInv t" using T unfolding t_def createPathTrie_def by blast
  have inv1: "counterInv t'" using T inv0 unfolding t'_def by blast
  have acc: "accounted t (Some kTrieResultInserted) t'"
    using T res unfolding t'_def by simp
  have c1: "getCount t' = 1"
    using acc by (simp add: accounted_def countChange_def getCount_def z)
  have s1: "sentinels (root t') = 1"
    using acc by (simp add: accounted_def countChange_def z)
  have small: "sentinels (root t') < 2 ^ 32" by (simp add: s1)
  have u1: "unat (getCount t') = sentinels (root t')"
    using T' inv1 small by blast
  have r1: "fst (replace_path ''a'' (Some 2) t1) = kTrieResultReplaced"
    using R g by blast
  have r2: "fst (replace_uint 42 (Some 2) tu) = kTrieResultReplaced"
    using U gu by blast
  show ?thesis
    using inv1 c1 s1 u1 r1 r2 unfolding t'_def op_def t_def t1_def tu_def by blast
qed

text \<open>
  Claim C7 as stated fails in "replace leaves it unchanged": on a new path trie, whose
  count is 0, \<open>replace("a", v)\<close> stores \<open>v\<close>, returns \<open>kTrieResultInserted\<close> and the
  count is 1.
\<close>

theorem replace_absent_key_counterexample:
  "getCount (createPathTrie :: nat Trie) = 0 \<and>
   fst (replace_path ''a'' (Some (1::nat)) createPathTrie) = kTrieResultInserted \<and>
   getCount (snd (replace_path ''a'' (Some (1::nat)) createPathTrie)) = 1"
  by code_simp

lemma triggerOnChange_fields:
  "root (triggerOnChange x y t) = root t"
  "kind (triggerOnChange x y t) = kind t"
  "trieSize (triggerOnChange x y t) = trieSize t"
  "onChangeCallback (triggerOnChange x y t) = onChangeCallback t"
  by (simp_all add: triggerOnChange_def)












lemma pathIndex_caseFold: "map pathIndex (cstr key) = map (\<lambda>n. int n - 32) (caseFold key)"
  by (simp add: caseFold_def pathIndex_def comp_def)

lemma findPathNode_caseFold:
  assumes "caseFold k1 = caseFold k2"
  shows "findPathNode k1 t = findPathNode k2 t"
  by (simp add: findPathNode_def pathIndex_caseFold assms)

lemma insert_then_get:
  assumes "fst (insert_node (fst (findFrom idxs t)) (Some v) (snd (findFrom idxs t))) = kTrieResultInserted"
  shows "get_node (fst (findFrom idxs (snd (insert_node (fst (findFrom idxs t)) (Some v) (snd (findFrom idxs t))))))
                  (snd (findFrom idxs (snd (insert_node (fst (findFrom idxs t)) (Some v) (snd (findFrom idxs t)))))) = Some v"
proof -
  define t0 where "t0 = snd (findFrom idxs t)"
  define t1 where "t1 = snd (insert_node (fst (findFrom idxs t)) (Some v) t0)"
  from assms obtain p where p: "fst (findFrom idxs t) = Some p"
    by (cases "fst (findFrom idxs t)") (auto simp: insert_node_def)
  have pm: "p = map nat idxs" and valid: "nodeAt (root t0) p \<noteq> None"
    and nn: "\<forall>i \<in> set idxs. 0 \<le> i"
    using findFrom_Some[OF p] unfolding t0_def by blast+
  have free: "recordAt (root t0) p = None"
    using assms by (auto simp: p t0_def[symmetric] insert_node_def split: option.splits)
  have r1: "root t1 = setRecord p (Some v) (root t0)"
    by (simp add: t1_def p insert_node_def free triggerOnChange_fields)
  have v1: "nodeAt (root t1) (map nat idxs) \<noteq> None"
    using setRecord_nodeAt[OF valid, of p "Some v"] by (simp add: r1 pm)
  have rec: "recordAt (root t1) p = Some v"
    by (simp add: r1 setRecord_recordAt[OF valid])
  have "get_node (fst (findFrom idxs t1)) (snd (findFrom idxs t1)) = Some v"
    by (simp add: findFrom_existing[OF v1 nn] get_node_def rec[unfolded pm])
  then show ?thesis by (simp add: t1_def t0_def)
qed

lemma insert_free_key:
  assumes "shapeInv t" "\<forall>i \<in> set idxs. 0 \<le> i \<and> i < int (createNodeFanout (kind t))"
    and "get_node (fst (findFrom idxs t)) (snd (findFrom idxs t)) = None"
  shows "fst (insert_node (fst (findFrom idxs t)) (Some v) (snd (findFrom idxs t))) = kTrieResultInserted"
proof -
  have "fst (findFrom idxs t) \<noteq> None"
    using findFrom_succeeds[OF assms(1), of idxs] assms(2) by blast
  then obtain p where p: "fst (findFrom idxs t) = Some p" by blast
  have free: "recordAt (root (snd (findFrom idxs t))) p = None"
    using assms(3) by (simp add: p get_node_def)
  show ?thesis by (simp add: p insert_node_def free)
qed

lemma sameLetter_toupper:
  assumes "sameLetter c d"
  shows "toupper (of_char c) = toupper (of_char d)"
  using assms by (auto simp: sameLetter_def toupper_def)

lemma equalUpToCase_caseFold:
  assumes "equalUpToCase k1 k2"
  shows "caseFold k1 = caseFold k2"
proof -
  have "list_all2 sameLetter xs ys \<Longrightarrow>
          map (\<lambda>c. toupper (of_char c)) xs = map (\<lambda>c. toupper (of_char c)) ys" for xs ys
    by (induction rule: list_all2_induct) (simp_all add: sameLetter_toupper)
  then show ?thesis using assms by (simp add: equalUpToCase_def caseFold_def)
qed

lemma insert_existing_then_get:
  assumes "get_node (fst (findFrom idxs t)) (snd (findFrom idxs t)) = Some old"
  shows "insert_node (fst (findFrom idxs t)) (Some v) (snd (findFrom idxs t)) =
           (kTrieResultAlreadyExists, snd (findFrom idxs t)) \<and>
         get_node (fst (findFrom idxs (snd (findFrom idxs t)))) (snd (findFrom idxs (snd (findFrom idxs t)))) = Some old"
proof -
  define t0 where "t0 = snd (findFrom idxs t)"
  from assms obtain p where p: "fst (findFrom idxs t) = Some p"
    and r: "recordAt (root t0) p = Some old"
    by (auto simp: get_node_def t0_def split: option.splits)
  have pm: "p = map nat idxs" and valid: "nodeAt (root t0) p \<noteq> None"
    and nn: "\<forall>i \<in> set idxs. 0 \<le> i"
    using findFrom_Some[OF p] unfolding t0_def by blast+
  have v0: "nodeAt (root t0) (map nat idxs) \<noteq> None" using valid by (simp add: pm)
  have "insert_node (fst (findFrom idxs t)) (Some v) t0 = (kTrieResultAlreadyExists, t0)"
    by (simp add: p insert_node_def r)
  moreover have "get_node (fst (findFrom idxs t0)) (snd (findFrom idxs t0)) = Some old"
    by (simp add: findFrom_existing[OF v0 nn] get_node_def r[unfolded pm])
  ultimately show ?thesis by (simp add: t0_def)
qed

text \<open>
  Claim C9. Two path keys that are equal up to ASCII case (same length, and at every
  position the same byte or the upper-case and the lower-case form of one letter)
  address the same entry: every path-keyed operation does the same to the trie and
  returns the same for both keys. In particular, when \<open>insert(k1, v)\<close> has stored \<open>v\<close>
  (it returned \<open>kTrieResultInserted\<close>), \<open>get(k2)\<close> returns \<open>v\<close>; \<open>insert\<close> does store \<open>v\<close>
  whenever the key is made of addressable bytes and has no value yet, as on a new
  trie; and for a key of addressable bytes, \<open>get(k2)\<close> after \<open>insert(k1, v)\<close> returns \<open>v\<close>
  when the key had no value and the value it had otherwise, \<open>insert\<close> never
  overwriting.
\<close>

theorem path_keys_case_insensitive:
  fixes t :: "'a Trie"
  assumes "equalUpToCase k1 k2"
  shows "get_path k1 t = get_path k2 t \<and>
         getOrAdd_path k1 factoryArgs factory t = getOrAdd_path k2 factoryArgs factory t \<and>
         insert_path k1 val t = insert_path k2 val t \<and>
         replace_path k1 val t = replace_path k2 val t \<and>
         remove_path k1 t = remove_path k2 t \<and>
         (fst (insert_path k1 (Some v) t) = kTrieResultInserted \<longrightarrow>
            fst (get_path k2 (snd (insert_path k1 (Some v) t))) = Some v) \<and>
         (kind t = kPathTrie \<and> shapeInv t \<and> (\<forall>c \<in> set (cstr k1). addressable c) \<and>
          fst (get_path k1 t) = None \<longrightarrow>
            fst (insert_path k1 (Some v) t) = kTrieResultInserted) \<and>
         (kind t = kPathTrie \<and> shapeInv t \<and> (\<forall>c \<in> set (cstr k1). addressable c) \<longrightarrow>
            fst (get_path k2 (snd (insert_path k1 (Some v) t))) =
              Some (case fst (get_path k1 t) of None \<Rightarrow> v | Some old \<Rightarrow> old))"
proof -
  note F = findPathNode_caseFold[OF equalUpToCase_caseFold[OF assms]]
  define idxs where "idxs = map pathIndex (cstr k1)"
  have G: "get_path k1 t' = get_path k2 t'" for t' :: "'a Trie"
    by (simp add: get_path_def F)
  have 1: "get_path k1 t = get_path k2 t" by (rule G)
  have 2: "getOrAdd_path k1 factoryArgs factory t = getOrAdd_path k2 factoryArgs factory t"
    by (simp add: getOrAdd_path_def F)
  have 3: "insert_path k1 val t = insert_path k2 val t" by (simp add: insert_path_def F)
  have 4: "replace_path k1 val t = replace_path k2 val t" by (simp add: replace_path_def F)
  have 5: "remove_path k1 t = remove_path k2 t" by (simp add: remove_path_def F)
  have 6: "fst (insert_path k1 (Some v) t) = kTrieResultInserted \<longrightarrow>
            fst (get_path k2 (snd (insert_path k1 (Some v) t))) = Some v"
  proof
    assume ins: "fst (insert_path k1 (Some v) t) = kTrieResultInserted"
    have k: "kind t = kPathTrie" using ins by (auto simp: insert_path_def split: if_splits)
    have i: "fst (insert_node (fst (findFrom idxs t)) (Some v) (snd (findFrom idxs t))) = kTrieResultInserted"
      using ins by (simp add: path_ops_unfold(3) k idxs_def)
    have t1: "snd (insert_path k1 (Some v) t) = snd (insert_node (fst (findFrom idxs t)) (Some v) (snd (findFrom idxs t)))"
      by (simp add: path_ops_unfold(3) k idxs_def)
    have k1: "kind (snd (insert_path k1 (Some v) t)) = kPathTrie"
      using applyOp_accounted[of t "OpInsert (PathKey k1) (Some v)"] k by (simp add: accounted_def)
    have "fst (get_path k1 (snd (insert_path k1 (Some v) t))) = Some v"
      using insert_then_get[OF i] k1 by (simp add: path_ops_unfold(1) idxs_def[symmetric] t1)
    then show "fst (get_path k2 (snd (insert_path k1 (Some v) t))) = Some v"
      by (simp only: G)
  qed
  have 7: "kind t = kPathTrie \<and> shapeInv t \<and> (\<forall>c \<in> set (cstr k1). addressable c) \<and>
          fst (get_path k1 t) = None \<longrightarrow>
            fst (insert_path k1 (Some v) t) = kTrieResultInserted"
  proof
    assume h: "kind t = kPathTrie \<and> shapeInv t \<and> (\<forall>c \<in> set (cstr k1). addressable c) \<and>
          fst (get_path k1 t) = None"
    from h have hk: "kind t = kPathTrie" and hs: "shapeInv t"
      and ha: "\<forall>c \<in> set (cstr k1). addressable c" and hg: "fst (get_path k1 t) = None"
      by blast+
    have rng: "\<forall>i \<in> set idxs. 0 \<le> i \<and> i < int (createNodeFanout (kind t))"
      using ha pathIndex_range(1) by (auto simp: idxs_def createNodeFanout_def hk)
    have g: "get_node (fst (findFrom idxs t)) (snd (findFrom idxs t)) = None"
      using hg by (simp add: path_ops_unfold(1) idxs_def hk)
    show "fst (insert_path k1 (Some v) t) = kTrieResultInserted"
      using insert_free_key[OF hs rng g] by (simp add: path_ops_unfold(3) idxs_def hk)
  qed
  have 8: "kind t = kPathTrie \<and> shapeInv t \<and> (\<forall>c \<in> set (cstr k1). addressable c) \<longrightarrow>
            fst (get_path k2 (snd (insert_path k1 (Some v) t))) =
              Some (case fst (get_path k1 t) of None \<Rightarrow> v | Some old \<Rightarrow> old)"
  proof
    assume h: "kind t = kPathTrie \<and> shapeInv t \<and> (\<forall>c \<in> set (cstr k1). addressable c)"
    then have hk: "kind t = kPathTrie" by blast
    show "fst (get_path k2 (snd (insert_path k1 (Some v) t))) =
              Some (case fst (get_path k1 t) of None \<Rightarrow> v | Some old \<Rightarrow> old)"
    proof (cases "fst (get_path k1 t)")
      case None
      with h 7 have "fst (insert_path k1 (Some v) t) = kTrieResultInserted" by blast
      with 6 show ?thesis by (simp add: None)
    next
      case (Some old)
      define t0 where "t0 = snd (findFrom idxs t)"
      have g: "get_node (fst (findFrom idxs t)) (snd (findFrom idxs t)) = Some old"
        using Some by (simp add: path_ops_unfold(1) idxs_def hk)
      note E = insert_existing_then_get[OF g, of v, folded t0_def]
      have k0: "kind t0 = kPathTrie" by (simp add: t0_def findFrom_snd hk)
      have t1: "snd (insert_path k1 (Some v) t) = t0"
        using E by (simp add: path_ops_unfold(3) hk idxs_def[symmetric] t0_def)
      have "fst (get_path k1 t0) = Some old"
        using E k0 by (simp add: path_ops_unfold(1) idxs_def[symmetric])
      then show ?thesis by (simp add: t1 Some G[symmetric])
    qed
  qed
  show ?thesis by (intro conjI 1 2 3 4 5 6 7 8)
qed

theorem path_keys_case_insensitive_witness:
  "equalUpToCase ''/Foo/BAR'' ''/foo/bar'' \<and>
   fst (insert_path ''/Foo/BAR'' (Some (5::nat)) createPathTrie) = kTrieResultInserted \<and>
   fst (get_path ''/foo/bar'' (snd (insert_path ''/Foo/BAR'' (Some (5::nat)) createPathTrie))) = Some 5 \<and>
   fst (get_path ''/usr/lib/SYSTEM.z'' (snd (insert_path ''/USR/Lib/system.Z'' (Some (6::nat)) createPathTrie))) = Some 6 \<and>
   fst (get_path ''/FOO/bar'' (snd (insert_path ''/foo/BAR'' (Some 7)
          (snd (insert_path ''/Foo/BAR'' (Some (5::nat)) createPathTrie))))) = Some 5"
proof -
  define t :: "nat Trie" where "t = createPathTrie"
  define t1 where "t1 = snd (insert_path ''/Foo/BAR'' (Some (5::nat)) t)"
  have e1: "equalUpToCase ''/Foo/BAR'' ''/foo/bar''" by code_simp
  have e2: "equalUpToCase ''/USR/Lib/system.Z'' ''/usr/lib/SYSTEM.z''" by code_simp
  have e3: "equalUpToCase ''/foo/BAR'' ''/FOO/bar''" by code_simp
  have k: "kind t = kPathTrie" by (simp add: t_def createPathTrie_def createTrie_def)
  have s: "shapeInv t" by (simp add: t_def createPathTrie_def createTrie_invs)
  have k1: "kind t1 = kPathTrie" unfolding t1_def t_def by code_simp
  have s1: "shapeInv t1"
    using applyOp_shapeInv[OF s, of "OpInsert (PathKey ''/Foo/BAR'') (Some 5)"] by (simp add: t1_def)
  have ad1: "\<forall>c \<in> set (cstr ''/Foo/BAR''). addressable c" by code_simp
  have ad2: "\<forall>c \<in> set (cstr ''/USR/Lib/system.Z''). addressable c" by code_simp
  have ad3: "\<forall>c \<in> set (cstr ''/foo/BAR''). addressable c" by code_simp
  have g1: "fst (get_path ''/Foo/BAR'' t) = None" unfolding t_def by code_simp
  have g2: "fst (get_path ''/USR/Lib/system.Z'' t) = None" unfolding t_def by code_simp
  have g3: "fst (get_path ''/foo/BAR'' t1) = Some 5" unfolding t1_def t_def by code_simp
  note T1 = path_keys_case_insensitive[OF e1, of t "()" "\<lambda>_. 0" "Some 5" 5]
  note T2 = path_keys_case_insensitive[OF e2, of t "()" "\<lambda>_. 0" "Some 6" 6]
  note T3 = path_keys_case_insensitive[OF e3, of t1 "()" "\<lambda>_. 0" "Some 7" 7]
  have ins: "fst (insert_path ''/Foo/BAR'' (Some 5) t) = kTrieResultInserted"
    using T1 k s ad1 g1 by blast
  have r1: "fst (get_path ''/foo/bar'' (snd (insert_path ''/Foo/BAR'' (Some 5) t))) = Some 5"
    using T1 ins by blast
  have "fst (get_path ''/usr/lib/SYSTEM.z'' (snd (insert_path ''/USR/Lib/system.Z'' (Some 6) t))) =
          Some (case fst (get_path ''/USR/Lib/system.Z'' t) of None \<Rightarrow> 6 | Some old \<Rightarrow> old)"
    using T2 k s ad2 by blast
  then have r2: "fst (get_path ''/usr/lib/SYSTEM.z'' (snd (insert_path ''/USR/Lib/system.Z'' (Some 6) t))) = Some 6"
    by (simp add: g2)
  have "fst (get_path ''/FOO/bar'' (snd (insert_path ''/foo/BAR'' (Some 7) t1))) =
          Some (case fst (get_path ''/foo/BAR'' t1) of None \<Rightarrow> 7 | Some old \<Rightarrow> old)"
    using T3 k1 s1 ad3 by blast
  then have r3: "fst (get_path ''/FOO/bar'' (snd (insert_path ''/foo/BAR'' (Some 7) t1))) = Some 5"
    by (simp add: g3)
  show ?thesis
    using e1 ins r1 r2 r3 unfolding t1_def t_def by blast
qed

end
